theory Spec2Isabelle
  imports Main "HOL-Library.Word" "HOL-Library.Multiset" "HOL-Library.Sublist"
begin

section \<open>Values, errors and the wire format\<close>

text \<open>
  The values \<^verbatim>\<open>json.loads\<close> returns and \<^verbatim>\<open>json.dumps\<close> accepts. A float is kept
  as the text of its literal; an object is the item list of the Python dict (keys distinct).
\<close>

datatype json =
    JNull
  | JBool bool
  | JInt int
  | JFloat string
  | JString string
  | JList "json list"
  | JObject "(string \<times> json) list"

text \<open>The exceptions the program can meet, as values.\<close>

datatype error =
    DecodeError
  | KeyError string
  | TypeError
  | Exception string
  | TransportError string

type_synonym bytes = "8 word list"

definition TOPIC :: string where
  "TOPIC = ''projects/europython18/topics/ep18-topic''"

definition SUBSCRIPTION :: string where
  "SUBSCRIPTION = ''projects/europython18/subscriptions/ep18-sub''"

definition ascii_lowercase :: string where
  "ascii_lowercase = ''abcdefghijklmnopqrstuvwxyz''"

definition digits :: string where
  "digits = ''0123456789''"

definition CHOICES :: string where
  "CHOICES = ascii_lowercase @ digits"

subsection \<open>json.dumps with its default separators and ensure_ascii\<close>

definition dquote :: char where
  "dquote = CHR 0x22"

definition backslash :: char where
  "backslash = CHR 0x5C"

definition hexdigit :: "nat \<Rightarrow> char" where
  "hexdigit n = ''0123456789abcdef'' ! (n mod 16)"

text \<open>
  One character of a string literal: the quote and the backslash are escaped, the
  control characters with a short form use it, every other character outside the
  printable ASCII range becomes a four-digit \<^verbatim>\<open>\u\<close> escape.
\<close>

definition escape_char :: "char \<Rightarrow> string" where
  "escape_char c =
     (if c = dquote then [backslash, dquote]
      else if c = backslash then [backslash, backslash]
      else if c = CHR 0x0A then [backslash, CHR ''n'']
      else if c = CHR 0x0D then [backslash, CHR ''r'']
      else if c = CHR 0x09 then [backslash, CHR ''t'']
      else if c = CHR 0x08 then [backslash, CHR ''b'']
      else if c = CHR 0x0C then [backslash, CHR ''f'']
      else if 32 \<le> (of_char c :: nat) \<and> (of_char c :: nat) \<le> 126 then [c]
      else [backslash, CHR ''u'', CHR ''0'', CHR ''0'',
            hexdigit ((of_char c :: nat) div 16), hexdigit ((of_char c :: nat) mod 16)])"

definition encode_basestring_ascii :: "string \<Rightarrow> string" where
  "encode_basestring_ascii s = [dquote] @ concat (map escape_char s) @ [dquote]"

fun dec_nat :: "nat \<Rightarrow> string" where
  "dec_nat n = (if n < 10 then [hexdigit n] else dec_nat (n div 10) @ [hexdigit (n mod 10)])"

definition dec_int :: "int \<Rightarrow> string" where
  "dec_int i = (if i < 0 then ''-'' @ dec_nat (nat (- i)) else dec_nat (nat i))"

fun join :: "string \<Rightarrow> string list \<Rightarrow> string" where
  "join sep [] = []"
| "join sep [x] = x"
| "join sep (x # y # ys) = x @ sep @ join sep (y # ys)"

fun json_dumps :: "json \<Rightarrow> string"
  and dumps_items :: "json list \<Rightarrow> string list"
  and dumps_pairs :: "(string \<times> json) list \<Rightarrow> string list"
  and dumps_pair :: "string \<times> json \<Rightarrow> string" where
  "json_dumps JNull = ''null''"
| "json_dumps (JBool b) = (if b then ''true'' else ''false'')"
| "json_dumps (JInt i) = dec_int i"
| "json_dumps (JFloat s) = s"
| "json_dumps (JString s) = encode_basestring_ascii s"
| "json_dumps (JList xs) = ''['' @ join '', '' (dumps_items xs) @ '']''"
| "json_dumps (JObject kvs) = ''{'' @ join '', '' (dumps_pairs kvs) @ ''}''"
| "dumps_items [] = []"
| "dumps_items (x # xs) = json_dumps x # dumps_items xs"
| "dumps_pairs [] = []"
| "dumps_pairs (kv # kvs) = dumps_pair kv # dumps_pairs kvs"
| "dumps_pair (k, v) = encode_basestring_ascii k @ '': '' @ json_dumps v"

subsection \<open>bytes(s, encoding='utf-8') on the code points a char holds\<close>

definition utf8_char :: "char \<Rightarrow> bytes" where
  "utf8_char c =
     (let n = (of_char c :: nat) in
      if n < 128 then [of_nat n]
      else [of_nat (192 + n div 64), of_nat (128 + n mod 64)])"

definition utf8_encode :: "string \<Rightarrow> bytes" where
  "utf8_encode s = concat (map utf8_char s)"

section \<open>PubSubMessage\<close>

text \<open>
  The attrs class. \<^verbatim>\<open>instance_name\<close> is whatever the payload holds under that key,
  \<^verbatim>\<open>hostname\<close> has \<^verbatim>\<open>init=False\<close> and is assigned by \<^verbatim>\<open>__attrs_post_init__\<close>.
\<close>

record PubSubMessage =
  instance_name :: json
  message_id :: string
  hostname :: string

text \<open>
  Formatting a value inside an f-string: a \<^verbatim>\<open>str\<close> is inserted as it is; what
  \<^verbatim>\<open>str()\<close> gives for the other values is a parameter.
\<close>

definition format_value :: "(json \<Rightarrow> string) \<Rightarrow> json \<Rightarrow> string" where
  "format_value str_other v = (case v of JString s \<Rightarrow> s | _ \<Rightarrow> str_other v)"

definition attrs_post_init :: "(json \<Rightarrow> string) \<Rightarrow> json \<Rightarrow> string" where
  "attrs_post_init str_other name = format_value str_other name @ ''.example.net''"

definition new_PubSubMessage :: "(json \<Rightarrow> string) \<Rightarrow> string \<Rightarrow> json \<Rightarrow> PubSubMessage" where
  "new_PubSubMessage str_other mid name =
     \<lparr>instance_name = name, message_id = mid, hostname = attrs_post_init str_other name\<rparr>"

text \<open>
  The class is declared with a bare \<^verbatim>\<open>@attr.s\<close> (no \<^verbatim>\<open>frozen=True\<close>), so attribute
  assignment on an instance is the ordinary one; \<^verbatim>\<open>__attrs_post_init__\<close> itself relies
  on it.
\<close>

definition setattr_instance_name :: "json \<Rightarrow> PubSubMessage \<Rightarrow> PubSubMessage" where
  "setattr_instance_name v self = self\<lparr>instance_name := v\<rparr>"

definition setattr_message_id :: "string \<Rightarrow> PubSubMessage \<Rightarrow> PubSubMessage" where
  "setattr_message_id v self = self\<lparr>message_id := v\<rparr>"

definition setattr_hostname :: "string \<Rightarrow> PubSubMessage \<Rightarrow> PubSubMessage" where
  "setattr_hostname v self = self\<lparr>hostname := v\<rparr>"

section \<open>The transport's message and the parse step of handle_message\<close>

text \<open>The message the subscriber delivers: payload bytes and delivery identifier.\<close>

record Message =
  data :: bytes
  delivery_id :: string

text \<open>
  The environment: \<^verbatim>\<open>json.loads(data.decode('utf-8'))\<close> as a function that is
  \<open>None\<close> where either call raises, and \<^verbatim>\<open>str()\<close> on values that are not strings.
\<close>

record env =
  json_loads :: "bytes \<Rightarrow> json option"
  str_other :: "json \<Rightarrow> string"

text \<open>\<^verbatim>\<open>msg_data['instance_name']\<close>: only a dict that has the key answers.\<close>

definition subscript :: "json \<Rightarrow> string \<Rightarrow> error + json" where
  "subscript v k =
     (case v of
        JObject kvs \<Rightarrow> (case map_of kvs k of None \<Rightarrow> Inl (KeyError k) | Some x \<Rightarrow> Inr x)
      | _ \<Rightarrow> Inl TypeError)"

definition parse_message :: "env \<Rightarrow> Message \<Rightarrow> error + PubSubMessage" where
  "parse_message E pubsub_msg =
     (case json_loads E (data pubsub_msg) of
        None \<Rightarrow> Inl DecodeError
      | Some msg_data \<Rightarrow>
          (case subscript msg_data ''instance_name'' of
             Inl e \<Rightarrow> Inl e
           | Inr name \<Rightarrow> Inr (new_PubSubMessage (str_other E) (delivery_id pubsub_msg) name)))"

section \<open>publish_sync and the periodic publish loop\<close>

text \<open>
  \<^verbatim>\<open>random.choices(population, k=k)\<close>: each of the \<open>k\<close> draws indexes the population.
  The generator is a sequence of naturals read from position \<open>pos\<close>; a draw is brought
  into the index range, as \<^verbatim>\<open>floor(random() * n)\<close> is.
\<close>

definition random_choices :: "(nat \<Rightarrow> nat) \<Rightarrow> nat \<Rightarrow> string \<Rightarrow> nat \<Rightarrow> string" where
  "random_choices rnd pos population k =
     map (\<lambda>i. population ! (rnd (pos + i) mod length population)) [0..<k]"

text \<open>
  The publisher side of the transport: whether creating the client raises, and whether
  the n-th call of \<^verbatim>\<open>publisher.publish\<close> (counted from the start of the program) raises.
\<close>

record transport =
  client_error :: "error option"
  publish_error :: "nat \<Rightarrow> error option"

text \<open>What the publishing side has done so far.\<close>

record pub_state =
  sent :: "(string \<times> bytes) list"
  debug_log :: "string list"
  draws :: nat
  slept :: nat

definition pub_init :: pub_state where
  "pub_init = \<lparr>sent = [], debug_log = [], draws = 0, slept = 0\<rparr>"

text \<open>One round of the \<^verbatim>\<open>for\<close> loop; the error, if any, comes with the state reached.\<close>

definition publish_one :: "transport \<Rightarrow> (nat \<Rightarrow> nat) \<Rightarrow> pub_state \<Rightarrow> pub_state \<times> error option" where
  "publish_one T rnd st =
     (let name = random_choices rnd (draws st) CHOICES 4;
          msg_data = JObject [(''instance_name'', JString name)];
          bytes_message = utf8_encode (json_dumps msg_data);
          st1 = st\<lparr>draws := draws st + 4, sent := sent st @ [(TOPIC, bytes_message)]\<rparr>
      in case publish_error T (length (sent st)) of
           Some e \<Rightarrow> (st1, Some e)
         | None \<Rightarrow> (st1\<lparr>debug_log := debug_log st1 @ [''Published '' @ name]\<rparr>, None))"

fun publish_range :: "transport \<Rightarrow> (nat \<Rightarrow> nat) \<Rightarrow> nat list \<Rightarrow> pub_state \<Rightarrow> pub_state \<times> error option" where
  "publish_range T rnd [] st = (st, None)"
| "publish_range T rnd (msg # rest) st =
     (case publish_one T rnd st of
        (st', Some e) \<Rightarrow> (st', Some e)
      | (st', None) \<Rightarrow> publish_range T rnd rest st')"

definition get_publisher :: "transport \<Rightarrow> error option" where
  "get_publisher T = client_error T"

definition publish_sync :: "transport \<Rightarrow> (nat \<Rightarrow> nat) \<Rightarrow> pub_state \<Rightarrow> pub_state \<times> error option" where
  "publish_sync T rnd st =
     (case get_publisher T of
        Some e \<Rightarrow> (st, Some e)
      | None \<Rightarrow> publish_range T rnd [1..<6] st)"

text \<open>
  The \<^verbatim>\<open>while True\<close> loop of \<^verbatim>\<open>publish\<close>, run for at most \<open>fuel\<close> rounds: it either is
  still looping when the fuel is spent, or an exception left it.
\<close>

datatype loop_outcome = StillLooping | Raised error

fun publish :: "nat \<Rightarrow> transport \<Rightarrow> (nat \<Rightarrow> nat) \<Rightarrow> pub_state \<Rightarrow> pub_state \<times> loop_outcome" where
  "publish 0 T rnd st = (st, StillLooping)"
| "publish (Suc fuel) T rnd st =
     (case publish_sync T rnd st of
        (st', Some e) \<Rightarrow> (st', Raised e)
      | (st', None) \<Rightarrow> publish fuel T rnd (st'\<lparr>slept := slept st' + 3\<rparr>))"

section \<open>The per-message pipeline: handle_message and the tasks it creates\<close>

text \<open>A sub-task's entry in the list \<^verbatim>\<open>gather\<close> returns: \<^verbatim>\<open>None\<close> or the exception.\<close>

datatype result = Ok | Failed error

text \<open>
  Where a coroutine stands. \<^verbatim>\<open>save\<close> and \<^verbatim>\<open>restart_host\<close> have one suspension point
  (the sleep); \<^verbatim>\<open>cleanup\<close> has two (the wait on the event, then the sleep);
  \<^verbatim>\<open>handle_message\<close> has one (the gather).
\<close>

datatype sub_pc = Created | Sleeping | Finished result

datatype cleanup_pc = CL_Created | CL_Waiting | CL_Sleeping | CL_Finished

datatype handler_pc = HM_Created | HM_Gathering | HM_Returned | HM_Raised error

text \<open>The calls to \<^verbatim>\<open>logging.debug\<close>, with their arguments instead of the formatted text.\<close>

datatype log_entry =
    Handling PubSubMessage
  | Saved PubSubMessage
  | Restarted string
  | Caught error
  | Acked string

text \<open>
  Everything one \<^verbatim>\<open>handle_message\<close> task owns. A task or object that has not been
  created is \<open>None\<close>; \<open>acks\<close> counts the calls of \<^verbatim>\<open>pubsub_msg.ack()\<close>.
\<close>

record pipeline =
  pubsub_msg :: Message
  handler :: handler_pc
  msg :: "PubSubMessage option"
  event :: "bool option"
  cleanup_task :: "cleanup_pc option"
  save_task :: "sub_pc option"
  restart_task :: "sub_pc option"
  results :: "result list option"
  acks :: nat
  logged :: "log_entry list"

text \<open>The task as \<^verbatim>\<open>asyncio.create_task(handle_message(pubsub_msg))\<close> leaves it.\<close>

definition init :: "Message \<Rightarrow> pipeline" where
  "init m =
     \<lparr>pubsub_msg = m, handler = HM_Created, msg = None, event = None, cleanup_task = None,
      save_task = None, restart_task = None, results = None, acks = 0, logged = []\<rparr>"

text \<open>\<^verbatim>\<open>random.randrange(1, 3)\<close> from a raw draw.\<close>

definition randrange_1_3 :: "nat \<Rightarrow> nat" where
  "randrange_1_3 r = 1 + r mod 2"

definition save :: "pipeline \<Rightarrow> pipeline option" where
  "save s =
     (case (save_task s, msg s) of
        (Some Created, Some m) \<Rightarrow> Some (s\<lparr>save_task := Some Sleeping\<rparr>)
      | (Some Sleeping, Some m) \<Rightarrow>
          Some (s\<lparr>logged := logged s @ [Saved m], save_task := Some (Finished Ok)\<rparr>)
      | _ \<Rightarrow> None)"

definition restart_host :: "nat \<Rightarrow> pipeline \<Rightarrow> pipeline option" where
  "restart_host r s =
     (case (restart_task s, msg s) of
        (Some Created, Some m) \<Rightarrow>
          (if randrange_1_3 r = 2
           then Some (s\<lparr>restart_task :=
                  Some (Finished (Failed (Exception (''Could not restart '' @ hostname m))))\<rparr>)
           else Some (s\<lparr>restart_task := Some Sleeping\<rparr>))
      | (Some Sleeping, Some m) \<Rightarrow>
          Some (s\<lparr>logged := logged s @ [Restarted (hostname m)],
                 restart_task := Some (Finished Ok)\<rparr>)
      | _ \<Rightarrow> None)"

definition cleanup :: "pipeline \<Rightarrow> pipeline option" where
  "cleanup s =
     (case cleanup_task s of
        Some CL_Created \<Rightarrow>
          Some (s\<lparr>cleanup_task := Some (if event s = Some True then CL_Sleeping else CL_Waiting)\<rparr>)
      | Some CL_Waiting \<Rightarrow>
          (if event s = Some True then Some (s\<lparr>cleanup_task := Some CL_Sleeping\<rparr>) else None)
      | Some CL_Sleeping \<Rightarrow>
          Some (s\<lparr>acks := acks s + 1,
                 logged := logged s @ [Acked (delivery_id (pubsub_msg s))],
                 cleanup_task := Some CL_Finished\<rparr>)
      | _ \<Rightarrow> None)"

fun handle_results :: "result list \<Rightarrow> log_entry list" where
  "handle_results [] = []"
| "handle_results (Ok # rs) = handle_results rs"
| "handle_results (Failed e # rs) = Caught e # handle_results rs"

text \<open>
  \<^verbatim>\<open>await asyncio.gather(a, b, return_exceptions=...)\<close> seen from the awaiting task:
  \<open>None\<close> while it has to wait, else the exception raised into it or the result list.
  Without \<^verbatim>\<open>return_exceptions\<close> the first exception is raised as soon as it occurs.
\<close>

fun outcome :: "sub_pc option \<Rightarrow> result option" where
  "outcome (Some (Finished r)) = Some r"
| "outcome _ = None"

definition gather :: "bool \<Rightarrow> sub_pc option \<Rightarrow> sub_pc option \<Rightarrow> (error + result list) option" where
  "gather return_exceptions a b =
     (case (outcome a, outcome b) of
        (Some r1, Some r2) \<Rightarrow>
          (if return_exceptions then Some (Inr [r1, r2])
           else (case (r1, r2) of
                   (Failed e, _) \<Rightarrow> Some (Inl e)
                 | (_, Failed e) \<Rightarrow> Some (Inl e)
                 | _ \<Rightarrow> Some (Inr [r1, r2])))
      | (Some (Failed e), None) \<Rightarrow> (if return_exceptions then None else Some (Inl e))
      | (None, Some (Failed e)) \<Rightarrow> (if return_exceptions then None else Some (Inl e))
      | _ \<Rightarrow> None)"

definition handle_message :: "env \<Rightarrow> pipeline \<Rightarrow> pipeline option" where
  "handle_message E s =
     (case handler s of
        HM_Created \<Rightarrow>
          (case parse_message E (pubsub_msg s) of
             Inl e \<Rightarrow> Some (s\<lparr>handler := HM_Raised e\<rparr>)
           | Inr m \<Rightarrow>
               Some (s\<lparr>msg := Some m, logged := logged s @ [Handling m], event := Some False,
                      cleanup_task := Some CL_Created, save_task := Some Created,
                      restart_task := Some Created, handler := HM_Gathering\<rparr>))
      | HM_Gathering \<Rightarrow>
          (case gather True (save_task s) (restart_task s) of
             None \<Rightarrow> None
           | Some (Inl e) \<Rightarrow> Some (s\<lparr>handler := HM_Raised e\<rparr>)
           | Some (Inr rs) \<Rightarrow>
               Some (s\<lparr>results := Some rs, logged := logged s @ handle_results rs,
                      event := Some True, handler := HM_Returned\<rparr>))
      | _ \<Rightarrow> None)"

text \<open>
  The event loop runs one task up to its next suspension point at a time. A schedule
  names the task to run at each turn (and the draw \<^verbatim>\<open>restart_host\<close> makes); a task that
  is finished, not created or still blocked cannot be run.
\<close>

datatype action = RunHandler | RunCleanup | RunSave | RunRestart nat

fun step :: "env \<Rightarrow> action \<Rightarrow> pipeline \<Rightarrow> pipeline option" where
  "step E RunHandler s = handle_message E s"
| "step E RunCleanup s = cleanup s"
| "step E RunSave s = save s"
| "step E (RunRestart r) s = restart_host r s"

fun exec :: "env \<Rightarrow> action list \<Rightarrow> pipeline \<Rightarrow> pipeline option" where
  "exec E [] s = Some s"
| "exec E (a # as) s = (case step E a s of None \<Rightarrow> None | Some s' \<Rightarrow> exec E as s')"

text \<open>No task of the pipeline can be run any more.\<close>

definition quiescent :: "env \<Rightarrow> pipeline \<Rightarrow> bool" where
  "quiescent E s =
     (handle_message E s = None \<and> cleanup s = None \<and> save s = None
      \<and> restart_host 0 s = None \<and> restart_host 1 s = None)"

definition terminal :: "sub_pc option \<Rightarrow> bool" where
  "terminal t = (outcome t \<noteq> None)"

section \<open>The mailbox, the delivery callbacks and the ingest loop\<close>

text \<open>
  \<open>pending\<close>: per callback thread, the deliveries it still has to make;
  \<open>ready\<close>: the \<^verbatim>\<open>add_to_queue\<close> coroutines that \<^verbatim>\<open>run_coroutine_threadsafe\<close> has handed
  to the loop, in the order the loop will run them;
  \<open>queue\<close>: \<^verbatim>\<open>GLOBAL_QUEUE\<close>;
  \<open>pipelines\<close>: the \<^verbatim>\<open>handle_message\<close> tasks \<^verbatim>\<open>get_from_queue\<close> has created, oldest first.
\<close>

record system =
  pending :: "Message list list"
  ready :: "Message list"
  queue :: "Message list"
  pipelines :: "pipeline list"

definition sys_init :: "Message list list \<Rightarrow> system" where
  "sys_init deliveries = \<lparr>pending = deliveries, ready = [], queue = [], pipelines = []\<rparr>"

text \<open>The subscriber's callback on thread \<open>t\<close>: one \<^verbatim>\<open>run_coroutine_threadsafe\<close> call.\<close>

definition callback :: "nat \<Rightarrow> system \<Rightarrow> system option" where
  "callback t S =
     (if t < length (pending S) then
        (case pending S ! t of
           [] \<Rightarrow> None
         | m # rest \<Rightarrow> Some (S\<lparr>pending := (pending S)[t := rest], ready := ready S @ [m]\<rparr>))
      else None)"

text \<open>The queue is unbounded, so \<^verbatim>\<open>put\<close> never suspends.\<close>

definition add_to_queue :: "system \<Rightarrow> system option" where
  "add_to_queue S =
     (case ready S of
        [] \<Rightarrow> None
      | m # rest \<Rightarrow> Some (S\<lparr>ready := rest, queue := queue S @ [m]\<rparr>))"

text \<open>One round of \<^verbatim>\<open>get_from_queue\<close>: blocked on an empty queue, else a new task.\<close>

definition get_from_queue :: "system \<Rightarrow> system option" where
  "get_from_queue S =
     (case queue S of
        [] \<Rightarrow> None
      | m # rest \<Rightarrow> Some (S\<lparr>queue := rest, pipelines := pipelines S @ [init m]\<rparr>))"

definition run_pipeline :: "env \<Rightarrow> nat \<Rightarrow> action \<Rightarrow> system \<Rightarrow> system option" where
  "run_pipeline E i a S =
     (if i < length (pipelines S) then
        (case step E a (pipelines S ! i) of
           None \<Rightarrow> None
         | Some p \<Rightarrow> Some (S\<lparr>pipelines := (pipelines S)[i := p]\<rparr>))
      else None)"

datatype sys_action = Deliver nat | RunAdd | Ingest | Pipe nat action

fun sys_step :: "env \<Rightarrow> sys_action \<Rightarrow> system \<Rightarrow> system option" where
  "sys_step E (Deliver t) S = callback t S"
| "sys_step E RunAdd S = add_to_queue S"
| "sys_step E Ingest S = get_from_queue S"
| "sys_step E (Pipe i a) S = run_pipeline E i a S"

fun sys_exec :: "env \<Rightarrow> sys_action list \<Rightarrow> system \<Rightarrow> system option" where
  "sys_exec E [] S = Some S"
| "sys_exec E (a # as) S = (case sys_step E a S of None \<Rightarrow> None | Some S' \<Rightarrow> sys_exec E as S')"

text \<open>The messages dequeued so far, in dequeue order.\<close>

definition dequeued :: "system \<Rightarrow> Message list" where
  "dequeued S = map pubsub_msg (pipelines S)"

section \<open>Invariant and progress measure of a pipeline\<close>

text \<open>
  What holds of a pipeline in every state an execution reaches, by the position of
  \<^verbatim>\<open>handle_message\<close>: nothing exists before the parse and after a failed parse; after
  the dispatch the tasks and the event exist, and the event is set exactly when
  \<^verbatim>\<open>handle_message\<close> has returned.
\<close>

definition fresh :: "pipeline \<Rightarrow> bool" where
  "fresh s \<longleftrightarrow> msg s = None \<and> event s = None \<and> cleanup_task s = None \<and> save_task s = None
     \<and> restart_task s = None \<and> results s = None \<and> acks s = 0 \<and> logged s = []"

definition dispatched :: "env \<Rightarrow> pipeline \<Rightarrow> bool" where
  "dispatched E s \<longleftrightarrow>
     (\<exists>m. parse_message E (pubsub_msg s) = Inr m \<and> msg s = Some m
        \<and> (restart_task s = Some Created \<or> restart_task s = Some Sleeping
           \<or> restart_task s = Some (Finished Ok)
           \<or> restart_task s = Some (Finished (Failed (Exception (''Could not restart '' @ hostname m))))))
     \<and> (save_task s = Some Created \<or> save_task s = Some Sleeping \<or> save_task s = Some (Finished Ok))
     \<and> cleanup_task s \<noteq> None
     \<and> (\<forall>h. Restarted h \<in> set (logged s) \<longrightarrow> restart_task s = Some (Finished Ok))"

definition pipeline_inv :: "env \<Rightarrow> pipeline \<Rightarrow> bool" where
  "pipeline_inv E s \<longleftrightarrow>
     (case handler s of
        HM_Created \<Rightarrow> fresh s
      | HM_Raised e \<Rightarrow> fresh s \<and> parse_message E (pubsub_msg s) = Inl e
      | HM_Gathering \<Rightarrow>
          dispatched E s \<and> event s = Some False
          \<and> (cleanup_task s = Some CL_Created \<or> cleanup_task s = Some CL_Waiting)
          \<and> results s = None \<and> acks s = 0 \<and> (\<forall>e. Caught e \<notin> set (logged s))
      | HM_Returned \<Rightarrow>
          dispatched E s \<and> event s = Some True \<and> save_task s = Some (Finished Ok)
          \<and> (\<exists>r. restart_task s = Some (Finished r) \<and> results s = Some [Ok, r]
                \<and> (\<forall>e. Caught e \<in> set (logged s) \<longleftrightarrow> r = Failed e))
          \<and> acks s = (if cleanup_task s = Some CL_Finished then 1 else 0))"

text \<open>The number of turns the tasks of a pipeline can still take, at most.\<close>

fun turns_handler :: "handler_pc \<Rightarrow> nat" where
  "turns_handler HM_Created = 9"
| "turns_handler HM_Gathering = 1"
| "turns_handler _ = 0"

fun turns_cleanup :: "cleanup_pc option \<Rightarrow> nat" where
  "turns_cleanup (Some CL_Created) = 3"
| "turns_cleanup (Some CL_Waiting) = 2"
| "turns_cleanup (Some CL_Sleeping) = 1"
| "turns_cleanup _ = 0"

fun turns_sub :: "sub_pc option \<Rightarrow> nat" where
  "turns_sub (Some Created) = 2"
| "turns_sub (Some Sleeping) = 1"
| "turns_sub _ = 0"

definition turns :: "pipeline \<Rightarrow> nat" where
  "turns s = turns_handler (handler s) + turns_cleanup (cleanup_task s)
     + turns_sub (save_task s) + turns_sub (restart_task s)"

text \<open>
  Everything that has left the callback threads, oldest first, and what every reachable
  state of the system satisfies: the messages in flight and those still to be delivered
  are together the deliveries, and what a thread has delivered appears in the flow in the
  order of delivery.
\<close>

definition flow :: "system \<Rightarrow> Message list" where
  "flow S = dequeued S @ queue S @ ready S"

definition sys_inv :: "Message list list \<Rightarrow> system \<Rightarrow> bool" where
  "sys_inv deliveries S \<longleftrightarrow>
     length (pending S) = length deliveries
     \<and> mset (flow S) + mset (concat (pending S)) = mset (concat deliveries)
     \<and> (\<forall>t<length deliveries. \<exists>c. deliveries ! t = c @ pending S ! t \<and> subseq c (flow S))"

section \<open>A concrete environment, two deliveries and a schedule\<close>

definition demo_env :: env where
  "demo_env =
     \<lparr>json_loads = (\<lambda>b. if b = [] then None
                        else if b = [1] then Some (JObject [(''zone'', JString ''eu'')])
                        else Some (JObject [(''instance_name'', JString ''ab12'')])),
      str_other = (\<lambda>v. ''?'')\<rparr>"

definition demo_message :: Message where
  "demo_message = \<lparr>data = [2], delivery_id = ''17''\<rparr>"

definition demo_malformed :: Message where
  "demo_malformed = \<lparr>data = [1], delivery_id = ''18''\<rparr>"

definition demo_schedule :: "action list" where
  "demo_schedule =
     [RunHandler, RunCleanup, RunSave, RunRestart 1, RunSave, RunHandler, RunCleanup, RunCleanup]"

definition demo_transport :: transport where
  "demo_transport =
     \<lparr>client_error = None,
      publish_error = (\<lambda>n. if n = 7 then Some (TransportError ''unavailable'') else None)\<rparr>"

definition demo_rnd :: "nat \<Rightarrow> nat" where
  "demo_rnd i = 7 * i + 30"

section \<open>Lemmas on publishing\<close>









lemma publish_one_ok:
  "publish_one T rnd st = (st', None) \<Longrightarrow>
   sent st' = sent st @ [(TOPIC, utf8_encode (json_dumps (JObject [(''instance_name'', JString (random_choices rnd (draws st) CHOICES 4))])))]
   \<and> draws st' = draws st + 4
   \<and> debug_log st' = debug_log st @ [''Published '' @ random_choices rnd (draws st) CHOICES 4]
   \<and> slept st' = slept st
   \<and> publish_error T (length (sent st)) = None"
  by (auto simp: publish_one_def Let_def split: option.splits)

lemma publish_one_err:
  "publish_one T rnd st = (st', Some e) \<Longrightarrow>
   length (sent st') = Suc (length (sent st))
   \<and> debug_log st' = debug_log st
   \<and> slept st' = slept st
   \<and> publish_error T (length (sent st)) = Some e"
  by (auto simp: publish_one_def Let_def split: option.splits)

lemma map_upt_shift:
  "map (\<lambda>i. g (a + 4 * i)) [0..<Suc n] = g a # map (\<lambda>i. g (a + 4 + 4 * i)) [0..<n]"
proof -
  have h: "[0..<Suc n] = 0 # map Suc [0..<n]"
    by (simp add: upt_conv_Cons map_Suc_upt del: upt_Suc)
  have "map (\<lambda>i. g (a + 4 * i)) (0 # map Suc [0..<n]) = g a # map (\<lambda>i. g (a + 4 + 4 * i)) [0..<n]"
    by (simp add: comp_def add.assoc)
  then show ?thesis by (simp only: h)
qed

lemma publish_range_ok:
  "publish_range T rnd ms st = (st', None) \<Longrightarrow>
   sent st' = sent st @ map (\<lambda>i. (TOPIC, utf8_encode (json_dumps (JObject [(''instance_name'', JString (random_choices rnd (draws st + 4 * i) CHOICES 4))])))) [0..<length ms]
   \<and> draws st' = draws st + 4 * length ms
   \<and> slept st' = slept st
   \<and> length (debug_log st') = length (debug_log st) + length ms
   \<and> (\<forall>i<length ms. publish_error T (length (sent st) + i) = None)"
proof (induction ms arbitrary: st)
  case Nil
  then show ?case by simp
next
  case (Cons m ms)
  define g where "g = (\<lambda>p. (TOPIC, utf8_encode (json_dumps (JObject [(''instance_name'', JString (random_choices rnd p CHOICES 4))]))))"
  from Cons.prems obtain st1 where
    one: "publish_one T rnd st = (st1, None)" and rest: "publish_range T rnd ms st1 = (st', None)"
    by (auto split: prod.splits option.splits)
  note o = publish_one_ok [OF one]
  note r = Cons.IH [OF rest]
  have s1: "sent st1 = sent st @ [g (draws st)]" using o by (simp add: g_def)
  have s2: "sent st' = sent st1 @ map (\<lambda>i. g (draws st + 4 + 4 * i)) [0..<length ms]"
    using r o by (simp add: g_def)
  have "sent st' = sent st @ map (\<lambda>i. g (draws st + 4 * i)) [0..<Suc (length ms)]"
    by (simp only: map_upt_shift s2 s1) simp
  then have A: "sent st' = sent st @ map (\<lambda>i. g (draws st + 4 * i)) [0..<length (m # ms)]"
    by simp
  have B: "draws st' = draws st + 4 * length (m # ms)" using o r by simp
  have C: "slept st' = slept st" using o r by simp
  have D: "length (debug_log st') = length (debug_log st) + length (m # ms)" using o r by simp
  have E: "\<forall>i<length (m # ms). publish_error T (length (sent st) + i) = None"
  proof (intro allI impI)
    fix i assume "i < length (m # ms)"
    show "publish_error T (length (sent st) + i) = None"
    proof (cases i)
      case 0 then show ?thesis using o by simp
    next
      case (Suc j)
      with \<open>i < length (m # ms)\<close> have "j < length ms" by simp
      with r have "publish_error T (length (sent st1) + j) = None" by blast
      then show ?thesis using s1 Suc by simp
    qed
  qed
  show ?case using A B C D E unfolding g_def by blast
qed

lemma publish_range_total:
  "(\<forall>i<length ms. publish_error T (length (sent st) + i) = None) \<Longrightarrow>
   \<exists>st'. publish_range T rnd ms st = (st', None)"
proof (induction ms arbitrary: st)
  case Nil
  then show ?case by simp
next
  case (Cons m ms)
  from Cons.prems have h0: "publish_error T (length (sent st)) = None" by force
  then obtain st1 where one: "publish_one T rnd st = (st1, None)"
    by (simp add: publish_one_def Let_def)
  have len: "length (sent st1) = Suc (length (sent st))"
    using publish_one_ok [OF one] by simp
  have "\<forall>i<length ms. publish_error T (length (sent st1) + i) = None"
  proof (intro allI impI)
    fix i assume "i < length ms"
    then have "Suc i < length (m # ms)" by simp
    with Cons.prems have "publish_error T (length (sent st) + Suc i) = None" by blast
    then show "publish_error T (length (sent st1) + i) = None" by (simp add: len)
  qed
  from Cons.IH [OF this] obtain st' where "publish_range T rnd ms st1 = (st', None)" ..
  with one show ?case by simp
qed

lemma publish_range_fault:
  "k < length ms \<Longrightarrow> publish_error T (length (sent st) + k) = Some e \<Longrightarrow>
   (\<forall>i<k. publish_error T (length (sent st) + i) = None) \<Longrightarrow>
   \<exists>st'. publish_range T rnd ms st = (st', Some e)
     \<and> length (sent st') = length (sent st) + k + 1
     \<and> length (debug_log st') = length (debug_log st) + k
     \<and> slept st' = slept st"
proof (induction ms arbitrary: st k)
  case Nil
  then show ?case by simp
next
  case (Cons m ms)
  show ?case
  proof (cases k)
    case 0
    with Cons.prems have "publish_error T (length (sent st)) = Some e" by simp
    then obtain st1 where one: "publish_one T rnd st = (st1, Some e)"
      by (simp add: publish_one_def Let_def)
    from publish_one_err [OF one] one 0 show ?thesis by simp
  next
    case (Suc j)
    with Cons.prems have h0: "publish_error T (length (sent st)) = None" by force
    then obtain st1 where one: "publish_one T rnd st = (st1, None)"
      by (simp add: publish_one_def Let_def)
    note o = publish_one_ok [OF one]
    have len: "length (sent st1) = Suc (length (sent st))" using o by simp
    have j: "j < length ms" using Cons.prems(1) Suc by simp
    have f: "publish_error T (length (sent st1) + j) = Some e"
      using Cons.prems(2) Suc by (simp add: len)
    have n: "\<forall>i<j. publish_error T (length (sent st1) + i) = None"
    proof (intro allI impI)
      fix i assume "i < j"
      then have "Suc i < k" using Suc by simp
      with Cons.prems(3) have "publish_error T (length (sent st) + Suc i) = None" by blast
      then show "publish_error T (length (sent st1) + i) = None" by (simp add: len)
    qed
    from Cons.IH [OF j f n] obtain st' where
      r: "publish_range T rnd ms st1 = (st', Some e)"
         "length (sent st') = length (sent st1) + j + 1"
         "length (debug_log st') = length (debug_log st1) + j"
         "slept st' = slept st1" by blast
    show ?thesis using one r o Suc by simp
  qed
qed

lemma range_1_6: "length [1..<6::nat] = 5"
  by simp

lemma publish_raises_aux:
  "client_error T = None \<Longrightarrow> publish_error T (length (sent st) + k) = Some e \<Longrightarrow>
   (\<forall>i<k. publish_error T (length (sent st) + i) = None) \<Longrightarrow> k < 5 * fuel \<Longrightarrow>
   \<exists>st'. publish fuel T rnd st = (st', Raised e)
     \<and> length (sent st') = length (sent st) + k + 1
     \<and> length (debug_log st') = length (debug_log st) + k
     \<and> slept st' = slept st + 3 * (k div 5)"
proof (induction fuel arbitrary: st k)
  case 0
  then show ?case by simp
next
  case (Suc fuel)
  show ?case
  proof (cases "k < 5")
    case True
    then have "k < length [1..<6::nat]" by simp
    from publish_range_fault [OF this Suc.prems(2) Suc.prems(3)] obtain st' where
      r: "publish_range T rnd [1..<6] st = (st', Some e)"
         "length (sent st') = length (sent st) + k + 1"
         "length (debug_log st') = length (debug_log st) + k"
         "slept st' = slept st" by blast
    have "publish_sync T rnd st = (st', Some e)"
      using r(1) Suc.prems(1) by (simp add: publish_sync_def get_publisher_def)
    then show ?thesis using r True by simp
  next
    case False
    have "\<forall>i<length [1..<6::nat]. publish_error T (length (sent st) + i) = None"
      using Suc.prems(3) False by simp
    from publish_range_total [OF this] obtain st1 where
      r: "publish_range T rnd [1..<6] st = (st1, None)" by blast
    note p = publish_range_ok [OF r]
    have ps: "publish_sync T rnd st = (st1, None)"
      using r Suc.prems(1) by (simp add: publish_sync_def get_publisher_def)
    define st2 where "st2 = st1\<lparr>slept := slept st1 + 3\<rparr>"
    have len: "length (sent st2) = length (sent st) + 5" using p by (simp add: st2_def)
    have f: "publish_error T (length (sent st2) + (k - 5)) = Some e"
      using Suc.prems(2) False by (simp add: len)
    have n: "\<forall>i<k - 5. publish_error T (length (sent st2) + i) = None"
    proof (intro allI impI)
      fix i assume "i < k - 5"
      then have "i + 5 < k" by simp
      with Suc.prems(3) have "publish_error T (length (sent st) + (i + 5)) = None" by blast
      then show "publish_error T (length (sent st2) + i) = None" by (simp add: len add.commute add.left_commute)
    qed
    have kk: "k - 5 < 5 * fuel" using Suc.prems(4) False by simp
    from Suc.IH [OF Suc.prems(1) f n kk] obtain st' where
      q: "publish fuel T rnd st2 = (st', Raised e)"
         "length (sent st') = length (sent st2) + (k - 5) + 1"
         "length (debug_log st') = length (debug_log st2) + (k - 5)"
         "slept st' = slept st2 + 3 * ((k - 5) div 5)" by blast
    have d: "k div 5 = Suc ((k - 5) div 5)" using False by (simp add: le_div_geq)
    have lg: "length (debug_log st2) = length (debug_log st) + 5" using p by (simp add: st2_def)
    have sl: "slept st2 = slept st + 3" using p by (simp add: st2_def)
    have "publish (Suc fuel) T rnd st = (st', Raised e)"
      using ps q(1) by (simp add: st2_def)
    moreover have "length (sent st') = length (sent st) + k + 1" using q(2) len False by simp
    moreover have "length (debug_log st') = length (debug_log st) + k" using q(3) lg False by simp
    moreover have "slept st' = slept st + 3 * (k div 5)" using q(4) sl d by simp
    ultimately show ?thesis by blast
  qed
qed

lemma publish_continues_aux:
  "client_error T = None \<Longrightarrow> (\<forall>i<5 * fuel. publish_error T (length (sent st) + i) = None) \<Longrightarrow>
   \<exists>st'. publish fuel T rnd st = (st', StillLooping)
     \<and> length (sent st') = length (sent st) + 5 * fuel
     \<and> slept st' = slept st + 3 * fuel"
proof (induction fuel arbitrary: st)
  case 0
  then show ?case by simp
next
  case (Suc fuel)
  have "\<forall>i<length [1..<6::nat]. publish_error T (length (sent st) + i) = None"
    using Suc.prems(2) by simp
  from publish_range_total [OF this] obtain st1 where
    r: "publish_range T rnd [1..<6] st = (st1, None)" by blast
  note p = publish_range_ok [OF r]
  have ps: "publish_sync T rnd st = (st1, None)"
    using r Suc.prems(1) by (simp add: publish_sync_def get_publisher_def)
  define st2 where "st2 = st1\<lparr>slept := slept st1 + 3\<rparr>"
  have len: "length (sent st2) = length (sent st) + 5" using p by (simp add: st2_def)
  have sl: "slept st2 = slept st + 3" using p by (simp add: st2_def)
  have n: "\<forall>i<5 * fuel. publish_error T (length (sent st2) + i) = None"
  proof (intro allI impI)
    fix i assume "i < 5 * fuel"
    then have "i + 5 < 5 * Suc fuel" by simp
    with Suc.prems(2) have "publish_error T (length (sent st) + (i + 5)) = None" by blast
    then show "publish_error T (length (sent st2) + i) = None" by (simp add: len add.commute add.left_commute)
  qed
  from Suc.IH [OF Suc.prems(1) n] obtain st' where
    q: "publish fuel T rnd st2 = (st', StillLooping)"
       "length (sent st') = length (sent st2) + 5 * fuel"
       "slept st' = slept st2 + 3 * fuel" by blast
  have "publish (Suc fuel) T rnd st = (st', StillLooping)" using ps q(1) by (simp add: st2_def)
  then show ?case using q len sl by simp
qed

section \<open>Lemmas on the pipeline\<close>

lemma save_cases:
  assumes "save s = Some s'"
  obtains m where "save_task s = Some Created" "msg s = Some m" "s' = s\<lparr>save_task := Some Sleeping\<rparr>"
  | m where "save_task s = Some Sleeping" "msg s = Some m"
      "s' = s\<lparr>logged := logged s @ [Saved m], save_task := Some (Finished Ok)\<rparr>"
  using assms unfolding save_def
  by (auto split: option.splits sub_pc.splits)

lemma restart_host_cases:
  assumes "restart_host r s = Some s'"
  obtains m where "restart_task s = Some Created" "msg s = Some m"
      "s' = s\<lparr>restart_task := Some (Finished (Failed (Exception (''Could not restart '' @ hostname m))))\<rparr>"
  | m where "restart_task s = Some Created" "msg s = Some m" "s' = s\<lparr>restart_task := Some Sleeping\<rparr>"
  | m where "restart_task s = Some Sleeping" "msg s = Some m"
      "s' = s\<lparr>logged := logged s @ [Restarted (hostname m)], restart_task := Some (Finished Ok)\<rparr>"
  using assms unfolding restart_host_def
  by (auto split: option.splits sub_pc.splits if_splits)

lemma cleanup_cases:
  assumes "cleanup s = Some s'"
  obtains "cleanup_task s = Some CL_Created" "event s = Some True" "s' = s\<lparr>cleanup_task := Some CL_Sleeping\<rparr>"
  | "cleanup_task s = Some CL_Created" "event s \<noteq> Some True" "s' = s\<lparr>cleanup_task := Some CL_Waiting\<rparr>"
  | "cleanup_task s = Some CL_Waiting" "event s = Some True" "s' = s\<lparr>cleanup_task := Some CL_Sleeping\<rparr>"
  | "cleanup_task s = Some CL_Sleeping"
      "s' = s\<lparr>acks := acks s + 1, logged := logged s @ [Acked (delivery_id (pubsub_msg s))],
             cleanup_task := Some CL_Finished\<rparr>"
  using assms unfolding cleanup_def
  by (auto split: option.splits cleanup_pc.splits if_splits)

lemma gather_True:
  "gather True a b = Some x \<longleftrightarrow> (\<exists>r1 r2. a = Some (Finished r1) \<and> b = Some (Finished r2) \<and> x = Inr [r1, r2])"
proof (cases "outcome a")
  case None
  then show ?thesis
    by (cases "outcome b"; cases a rule: outcome.cases; cases b rule: outcome.cases)
       (auto simp: gather_def split: result.splits)
next
  case (Some r1)
  then show ?thesis
    by (cases "outcome b"; cases a rule: outcome.cases; cases b rule: outcome.cases)
       (auto simp: gather_def split: result.splits)
qed

lemma handle_message_cases:
  assumes "handle_message E s = Some s'"
  obtains e where "handler s = HM_Created" "parse_message E (pubsub_msg s) = Inl e"
      "s' = s\<lparr>handler := HM_Raised e\<rparr>"
  | m where "handler s = HM_Created" "parse_message E (pubsub_msg s) = Inr m"
      "s' = s\<lparr>msg := Some m, logged := logged s @ [Handling m], event := Some False,
             cleanup_task := Some CL_Created, save_task := Some Created,
             restart_task := Some Created, handler := HM_Gathering\<rparr>"
  | r1 r2 where "handler s = HM_Gathering" "save_task s = Some (Finished r1)"
      "restart_task s = Some (Finished r2)"
      "s' = s\<lparr>results := Some [r1, r2], logged := logged s @ handle_results [r1, r2],
             event := Some True, handler := HM_Returned\<rparr>"
proof (cases "handler s")
  case HM_Created
  with assms that(1,2) show ?thesis
    unfolding handle_message_def by (cases "parse_message E (pubsub_msg s)") auto
next
  case HM_Gathering
  show ?thesis
  proof (cases "gather True (save_task s) (restart_task s)")
    case None
    with assms HM_Gathering show ?thesis unfolding handle_message_def by simp
  next
    case (Some x)
    then obtain r1 r2 where "save_task s = Some (Finished r1)" "restart_task s = Some (Finished r2)" "x = Inr [r1, r2]"
      unfolding gather_True by blast
    with assms HM_Gathering Some that(3) show ?thesis unfolding handle_message_def by simp
  qed
next
  case HM_Returned
  with assms show ?thesis unfolding handle_message_def by simp
next
  case (HM_Raised e)
  with assms show ?thesis unfolding handle_message_def by simp
qed

lemma inv_init: "pipeline_inv E (init m)"
  by (simp add: pipeline_inv_def init_def fresh_def)

lemma save_inv: "pipeline_inv E s \<Longrightarrow> save s = Some s' \<Longrightarrow> pipeline_inv E s'"
  by (erule save_cases; cases "handler s") (auto simp: pipeline_inv_def fresh_def dispatched_def)

lemma restart_inv: "pipeline_inv E s \<Longrightarrow> restart_host r s = Some s' \<Longrightarrow> pipeline_inv E s'"
  by (erule restart_host_cases; cases "handler s") (auto simp: pipeline_inv_def fresh_def dispatched_def)

lemma cleanup_inv: "pipeline_inv E s \<Longrightarrow> cleanup s = Some s' \<Longrightarrow> pipeline_inv E s'"
  by (erule cleanup_cases; cases "handler s") (auto simp: pipeline_inv_def fresh_def dispatched_def)


lemma handle_message_inv: "pipeline_inv E s \<Longrightarrow> handle_message E s = Some s' \<Longrightarrow> pipeline_inv E s'"
proof (erule handle_message_cases)
  fix e assume "pipeline_inv E s" "handler s = HM_Created" "parse_message E (pubsub_msg s) = Inl e"
    "s' = s\<lparr>handler := HM_Raised e\<rparr>"
  then show "pipeline_inv E s'" by (simp add: pipeline_inv_def fresh_def)
next
  fix m assume "pipeline_inv E s" "handler s = HM_Created" "parse_message E (pubsub_msg s) = Inr m"
    "s' = s\<lparr>msg := Some m, logged := logged s @ [Handling m], event := Some False,
             cleanup_task := Some CL_Created, save_task := Some Created,
             restart_task := Some Created, handler := HM_Gathering\<rparr>"
  then show "pipeline_inv E s'" by (simp add: pipeline_inv_def fresh_def dispatched_def)
next
  fix r1 r2 assume a: "pipeline_inv E s" "handler s = HM_Gathering" "save_task s = Some (Finished r1)"
      "restart_task s = Some (Finished r2)"
      "s' = s\<lparr>results := Some [r1, r2], logged := logged s @ handle_results [r1, r2],
             event := Some True, handler := HM_Returned\<rparr>"
  then have r1: "r1 = Ok" by (auto simp: pipeline_inv_def dispatched_def)
  from a show "pipeline_inv E s'"
    unfolding r1 by (cases r2) (auto simp: pipeline_inv_def dispatched_def)
qed

lemma step_inv: "pipeline_inv E s \<Longrightarrow> step E a s = Some s' \<Longrightarrow> pipeline_inv E s'"
  by (cases a) (auto intro: handle_message_inv cleanup_inv save_inv restart_inv)

lemma exec_inv: "pipeline_inv E s \<Longrightarrow> exec E as s = Some s' \<Longrightarrow> pipeline_inv E s'"
proof (induction as arbitrary: s)
  case Nil
  then show ?case by simp
next
  case (Cons a as)
  from Cons.prems(2) obtain s1 where 1: "step E a s = Some s1" and 2: "exec E as s1 = Some s'"
    by (auto split: option.splits)
  from Cons.IH [OF step_inv [OF Cons.prems(1) 1] 2] show ?case .
qed

lemma reach_inv: "exec E as (init m) = Some s \<Longrightarrow> pipeline_inv E s"
  using exec_inv [OF inv_init] .

lemma step_pubsub_msg: "step E a s = Some s' \<Longrightarrow> pubsub_msg s' = pubsub_msg s"
proof (cases a)
  case RunHandler
  assume "step E a s = Some s'"
  with RunHandler have "handle_message E s = Some s'" by simp
  then show ?thesis by (rule handle_message_cases) auto
next
  case RunCleanup
  assume "step E a s = Some s'"
  with RunCleanup have "cleanup s = Some s'" by simp
  then show ?thesis by (rule cleanup_cases) auto
next
  case RunSave
  assume "step E a s = Some s'"
  with RunSave have "save s = Some s'" by simp
  then show ?thesis by (rule save_cases) auto
next
  case (RunRestart r)
  assume "step E a s = Some s'"
  with RunRestart have "restart_host r s = Some s'" by simp
  then show ?thesis by (rule restart_host_cases) auto
qed

lemma exec_pubsub_msg: "exec E as s = Some s' \<Longrightarrow> pubsub_msg s' = pubsub_msg s"
proof (induction as arbitrary: s)
  case Nil
  then show ?case by simp
next
  case (Cons a as)
  from Cons.prems obtain s1 where 1: "step E a s = Some s1" and 2: "exec E as s1 = Some s'"
    by (auto split: option.splits)
  from Cons.IH [OF 2] step_pubsub_msg [OF 1] show ?case by simp
qed

lemma reach_pubsub_msg: "exec E as (init m) = Some s \<Longrightarrow> pubsub_msg s = m"
  using exec_pubsub_msg [of E as "init m" s] by (simp add: init_def)

lemma step_turns: "pipeline_inv E s \<Longrightarrow> step E a s = Some s' \<Longrightarrow> turns s' < turns s"
proof (cases a)
  case RunHandler
  assume i: "pipeline_inv E s" and "step E a s = Some s'"
  with RunHandler have "handle_message E s = Some s'" by simp
  with i show ?thesis by (elim handle_message_cases) (auto simp: turns_def pipeline_inv_def fresh_def)
next
  case RunCleanup
  assume "step E a s = Some s'"
  with RunCleanup have "cleanup s = Some s'" by simp
  then show ?thesis by (rule cleanup_cases) (auto simp: turns_def)
next
  case RunSave
  assume "step E a s = Some s'"
  with RunSave have "save s = Some s'" by simp
  then show ?thesis by (rule save_cases) (auto simp: turns_def)
next
  case (RunRestart r)
  assume "step E a s = Some s'"
  with RunRestart have "restart_host r s = Some s'" by simp
  then show ?thesis by (rule restart_host_cases) (auto simp: turns_def)
qed

lemma exec_turns: "pipeline_inv E s \<Longrightarrow> exec E as s = Some s' \<Longrightarrow> length as + turns s' \<le> turns s"
proof (induction as arbitrary: s)
  case Nil
  then show ?case by simp
next
  case (Cons a as)
  from Cons.prems(2) obtain s1 where 1: "step E a s = Some s1" and 2: "exec E as s1 = Some s'"
    by (auto split: option.splits)
  from Cons.IH [OF step_inv [OF Cons.prems(1) 1] 2] step_turns [OF Cons.prems(1) 1]
  show ?case by simp
qed

lemma reach_length: "exec E as (init m) = Some s \<Longrightarrow> length as \<le> 9"
  using exec_turns [OF inv_init, of E as m s] by (simp add: turns_def init_def)

lemma quiescent_inv:
  assumes "pipeline_inv E s" "quiescent E s"
  shows "(\<exists>e. handler s = HM_Raised e) \<or> (handler s = HM_Returned \<and> cleanup_task s = Some CL_Finished)"
proof (cases "handler s")
  case HM_Created
  then have "handle_message E s \<noteq> None"
    by (cases "parse_message E (pubsub_msg s)") (simp_all add: handle_message_def)
  with assms(2) show ?thesis by (simp add: quiescent_def)
next
  case HM_Gathering
  with assms(1) have d: "dispatched E s" by (simp add: pipeline_inv_def)
  then obtain m where m: "msg s = Some m" by (auto simp: dispatched_def)
  from assms(2) have sv: "save s = None" and rs: "restart_host 0 s = None"
    and hm: "handle_message E s = None" by (simp_all add: quiescent_def)
  from d sv m have 1: "save_task s = Some (Finished Ok)"
    by (auto simp: dispatched_def save_def)
  from d rs m obtain r where 2: "restart_task s = Some (Finished r)"
    by (auto simp: dispatched_def restart_host_def randrange_1_3_def)
  from 1 2 HM_Gathering have "handle_message E s \<noteq> None"
    by (simp add: handle_message_def gather_def)
  with hm show ?thesis by simp
next
  case HM_Returned
  with assms(1) have d: "dispatched E s" and ev: "event s = Some True" by (simp_all add: pipeline_inv_def)
  from assms(2) have "cleanup s = None" by (simp add: quiescent_def)
  with d ev have "cleanup_task s = Some CL_Finished"
    by (cases "cleanup_task s"; cases "the (cleanup_task s)") (auto simp: cleanup_def dispatched_def)
  with HM_Returned show ?thesis by simp
next
  case (HM_Raised e)
  then show ?thesis by simp
qed

lemma inv_returned:
  "pipeline_inv E s \<Longrightarrow> handler s = HM_Returned \<Longrightarrow>
   event s = Some True \<and> save_task s = Some (Finished Ok)
   \<and> (\<exists>r. restart_task s = Some (Finished r) \<and> results s = Some [Ok, r]
         \<and> (\<forall>e. Caught e \<in> set (logged s) \<longleftrightarrow> r = Failed e))
   \<and> acks s = (if cleanup_task s = Some CL_Finished then 1 else 0)
   \<and> dispatched E s"
  by (simp add: pipeline_inv_def)

lemma inv_gathering:
  "pipeline_inv E s \<Longrightarrow> handler s = HM_Gathering \<Longrightarrow>
   event s = Some False \<and> (cleanup_task s = Some CL_Created \<or> cleanup_task s = Some CL_Waiting)
   \<and> results s = None \<and> acks s = 0 \<and> (\<forall>e. Caught e \<notin> set (logged s)) \<and> dispatched E s"
  by (simp add: pipeline_inv_def)

lemma inv_fresh:
  "pipeline_inv E s \<Longrightarrow> handler s = HM_Created \<or> (\<exists>e. handler s = HM_Raised e) \<Longrightarrow> fresh s"
  by (auto simp: pipeline_inv_def)

lemma inv_raised:
  "pipeline_inv E s \<Longrightarrow> handler s = HM_Raised e \<Longrightarrow> parse_message E (pubsub_msg s) = Inl e"
  by (simp add: pipeline_inv_def)

lemma inv_event_set:
  assumes "pipeline_inv E s" "event s = Some True \<or> acks s \<noteq> 0
     \<or> cleanup_task s = Some CL_Sleeping \<or> cleanup_task s = Some CL_Finished \<or> results s \<noteq> None"
  shows "handler s = HM_Returned"
proof (cases "handler s")
  case HM_Created
  with assms(1) have "fresh s" by (simp add: inv_fresh)
  with assms(2) show ?thesis by (auto simp: fresh_def)
next
  case HM_Gathering
  from inv_gathering [OF assms(1) this] assms(2) show ?thesis by auto
next
  case HM_Returned
  then show ?thesis .
next
  case (HM_Raised e)
  with assms(1) have "fresh s" by (simp add: inv_fresh)
  with assms(2) show ?thesis by (auto simp: fresh_def)
qed

lemma inv_acks_le: "pipeline_inv E s \<Longrightarrow> acks s \<le> 1"
proof (cases "acks s = 0")
  case True
  then show ?thesis by simp
next
  case False
  assume i: "pipeline_inv E s"
  with False have "handler s = HM_Returned" by (simp add: inv_event_set)
  from inv_returned [OF i this] show ?thesis by simp
qed

lemma inv_parsed:
  assumes "pipeline_inv E s" "parse_message E (pubsub_msg s) = Inr pm"
  shows "\<forall>e. handler s \<noteq> HM_Raised e"
proof (intro allI notI)
  fix e assume "handler s = HM_Raised e"
  from inv_raised [OF assms(1) this] assms(2) show False by simp
qed

lemma inv_failed:
  assumes "pipeline_inv E s"
  shows "fresh s \<or> dispatched E s"
  using assms by (cases "handler s") (auto simp: pipeline_inv_def)

lemma gather_finished:
  "gather True (Some (Finished r1)) (Some (Finished r2)) = Some (Inr [r1, r2])"
  by (simp add: gather_True)

lemma fresh_no_task_step:
  assumes "fresh s" "step E a s = Some s'"
  shows "a = RunHandler"
proof (cases a)
  case RunHandler
  then show ?thesis .
next
  case RunCleanup
  with assms show ?thesis by (simp add: fresh_def cleanup_def)
next
  case RunSave
  with assms show ?thesis by (simp add: fresh_def save_def)
next
  case (RunRestart r)
  with assms show ?thesis by (simp add: fresh_def restart_host_def)
qed

lemma raised_no_step:
  assumes "fresh s" "handler s = HM_Raised e"
  shows "step E a s = None"
proof (cases "step E a s")
  case None
  then show ?thesis .
next
  case (Some s')
  from fresh_no_task_step [OF assms(1) Some] have "a = RunHandler" .
  with Some assms(2) show ?thesis by (simp add: handle_message_def)
qed

lemma exec_parse_failed:
  assumes "parse_message E raw = Inl e" "exec E sched (init raw) = Some s"
  shows "(sched = [] \<and> s = init raw) \<or> (sched = [RunHandler] \<and> s = (init raw)\<lparr>handler := HM_Raised e\<rparr>)"
proof (cases sched)
  case Nil
  with assms(2) show ?thesis by simp
next
  case (Cons a as)
  with assms(2) obtain s1 where 1: "step E a (init raw) = Some s1" and 2: "exec E as s1 = Some s"
    by (auto split: option.splits)
  have f: "fresh (init raw)" by (simp add: fresh_def init_def)
  from fresh_no_task_step [OF f 1] have a: "a = RunHandler" .
  with 1 assms(1) have s1: "s1 = (init raw)\<lparr>handler := HM_Raised e\<rparr>"
    by (simp add: handle_message_def init_def)
  have f1: "fresh s1" "handler s1 = HM_Raised e" by (simp_all add: s1 fresh_def init_def)
  have "as = []"
  proof (cases as)
    case Nil
    then show ?thesis .
  next
    case (Cons b bs)
    with 2 raised_no_step [OF f1, of E b] show ?thesis by simp
  qed
  with 2 a s1 Cons show ?thesis by simp
qed

lemma step_msg_stable:
  assumes "pipeline_inv E s" "msg s = Some pm" "step E a s = Some s'"
  shows "msg s' = Some pm"
proof (cases a)
  case RunHandler
  with assms(3) have h: "handle_message E s = Some s'" by simp
  have "handler s \<noteq> HM_Created"
  proof
    assume "handler s = HM_Created"
    with assms(1) have "fresh s" by (simp add: inv_fresh)
    with assms(2) show False by (simp add: fresh_def)
  qed
  with h assms(2) show ?thesis by (elim handle_message_cases) auto
next
  case RunCleanup
  with assms(3) have "cleanup s = Some s'" by simp
  with assms(2) show ?thesis by (elim cleanup_cases) auto
next
  case RunSave
  with assms(3) have "save s = Some s'" by simp
  with assms(2) show ?thesis by (elim save_cases) auto
next
  case (RunRestart r)
  with assms(3) have "restart_host r s = Some s'" by simp
  with assms(2) show ?thesis by (elim restart_host_cases) auto
qed

lemma exec_msg_stable:
  "pipeline_inv E s \<Longrightarrow> msg s = Some pm \<Longrightarrow> exec E as s = Some s' \<Longrightarrow> msg s' = Some pm"
proof (induction as arbitrary: s)
  case Nil
  then show ?case by simp
next
  case (Cons a as)
  from Cons.prems(3) obtain s1 where 1: "step E a s = Some s1" and 2: "exec E as s1 = Some s'"
    by (auto split: option.splits)
  from Cons.IH [OF step_inv [OF Cons.prems(1) 1] step_msg_stable [OF Cons.prems(1,2) 1] 2]
  show ?case .
qed

section \<open>Lemmas on the mailbox and the ingest loop\<close>

lemma sys_exec_append:
  "sys_exec E (as @ bs) S = (case sys_exec E as S of None \<Rightarrow> None | Some S' \<Rightarrow> sys_exec E bs S')"
  by (induction as arbitrary: S) (auto split: option.splits)

lemma pipe_exec:
  "i < length (pipelines S) \<Longrightarrow> exec E as (pipelines S ! i) = Some p \<Longrightarrow>
   sys_exec E (map (Pipe i) as) S = Some (S\<lparr>pipelines := (pipelines S)[i := p]\<rparr>)"
proof (induction as arbitrary: S)
  case Nil
  then have "(pipelines S)[i := p] = pipelines S" by (auto simp: list_update_same_conv)
  then show ?case by simp
next
  case (Cons a as)
  from Cons.prems(2) obtain p1 where 1: "step E a (pipelines S ! i) = Some p1"
    and 2: "exec E as p1 = Some p" by (auto split: option.splits)
  define S1 where "S1 = S\<lparr>pipelines := (pipelines S)[i := p1]\<rparr>"
  have s: "sys_step E (Pipe i a) S = Some S1"
    using Cons.prems(1) 1 by (simp add: run_pipeline_def S1_def)
  have l: "i < length (pipelines S1)" using Cons.prems(1) by (simp add: S1_def)
  have e: "exec E as (pipelines S1 ! i) = Some p" using 2 Cons.prems(1) by (simp add: S1_def)
  from Cons.IH [OF l e] s show ?case by (simp add: S1_def)
qed

lemma mset_concat_update:
  "t < length xss \<Longrightarrow> xss ! t = m # rest \<Longrightarrow>
   mset (concat (xss[t := rest])) + {#m#} = mset (concat xss)"
proof (induction xss arbitrary: t)
  case Nil
  then show ?case by simp
next
  case (Cons xs xss)
  show ?case
  proof (cases t)
    case 0
    with Cons.prems show ?thesis by simp
  next
    case (Suc u)
    with Cons.prems have "u < length xss" "xss ! u = m # rest" by simp_all
    from Cons.IH [OF this] Suc show ?thesis by (simp add: ac_simps)
  qed
qed

lemma sys_inv_init: "sys_inv deliveries (sys_init deliveries)"
  by (simp add: sys_inv_def sys_init_def flow_def dequeued_def)

lemma callback_inv:
  assumes "sys_inv D S" "callback t S = Some S'"
  shows "sys_inv D S'"
proof -
  from assms(2) obtain m rest where t: "t < length (pending S)" and p: "pending S ! t = m # rest"
    and S': "S' = S\<lparr>pending := (pending S)[t := rest], ready := ready S @ [m]\<rparr>"
    by (auto simp: callback_def split: if_splits list.splits)
  have fl: "flow S' = flow S @ [m]" by (simp add: S' flow_def dequeued_def)
  from assms(1) have len: "length (pending S) = length D"
    and ms: "mset (flow S) + mset (concat (pending S)) = mset (concat D)"
    and ord: "\<forall>u<length D. \<exists>c. D ! u = c @ pending S ! u \<and> subseq c (flow S)"
    by (simp_all add: sys_inv_def)
  have 1: "length (pending S') = length D" using len by (simp add: S')
  have pS': "pending S' = (pending S)[t := rest]" by (simp add: S')
  have "mset (flow S') + mset (concat (pending S')) =
        mset (flow S) + (mset (concat ((pending S)[t := rest])) + {#m#})"
    unfolding fl pS' by simp
  also have "\<dots> = mset (flow S) + mset (concat (pending S))"
    by (simp only: mset_concat_update [OF t p])
  finally have 2: "mset (flow S') + mset (concat (pending S')) = mset (concat D)"
    using ms by simp
  have 3: "\<forall>u<length D. \<exists>c. D ! u = c @ pending S' ! u \<and> subseq c (flow S')"
  proof (intro allI impI)
    fix u assume u: "u < length D"
    with ord obtain c where c: "D ! u = c @ pending S ! u" "subseq c (flow S)" by blast
    show "\<exists>c. D ! u = c @ pending S' ! u \<and> subseq c (flow S')"
    proof (cases "u = t")
      case True
      have "D ! u = (c @ [m]) @ pending S' ! u" using c(1) p True t by (simp add: S')
      moreover have "subseq (c @ [m]) (flow S')" using c(2) by (simp add: fl)
      ultimately show ?thesis by blast
    next
      case False
      have "D ! u = c @ pending S' ! u" using c(1) False by (simp add: S')
      moreover have "subseq c (flow S')" using c(2) unfolding fl by (rule subseq_rev_drop_many)
      ultimately show ?thesis by blast
    qed
  qed
  from 1 2 3 show ?thesis by (simp add: sys_inv_def)
qed

lemma add_to_queue_inv:
  assumes "sys_inv D S" "add_to_queue S = Some S'"
  shows "sys_inv D S'"
proof -
  from assms(2) obtain m rest where r: "ready S = m # rest"
    and S': "S' = S\<lparr>ready := rest, queue := queue S @ [m]\<rparr>"
    by (auto simp: add_to_queue_def split: list.splits)
  have "flow S' = flow S" "pending S' = pending S" by (simp_all add: S' r flow_def dequeued_def)
  with assms(1) show ?thesis by (simp add: sys_inv_def)
qed

lemma get_from_queue_inv:
  assumes "sys_inv D S" "get_from_queue S = Some S'"
  shows "sys_inv D S'"
proof -
  from assms(2) obtain m rest where q: "queue S = m # rest"
    and S': "S' = S\<lparr>queue := rest, pipelines := pipelines S @ [init m]\<rparr>"
    by (auto simp: get_from_queue_def split: list.splits)
  have "flow S' = flow S" "pending S' = pending S"
    by (simp_all add: S' q flow_def dequeued_def init_def)
  with assms(1) show ?thesis by (simp add: sys_inv_def)
qed

lemma run_pipeline_inv:
  assumes "sys_inv D S" "run_pipeline E i a S = Some S'"
  shows "sys_inv D S'"
proof -
  from assms(2) obtain p where i: "i < length (pipelines S)"
    and st: "step E a (pipelines S ! i) = Some p"
    and S': "S' = S\<lparr>pipelines := (pipelines S)[i := p]\<rparr>"
    by (auto simp: run_pipeline_def split: if_splits option.splits)
  have "map pubsub_msg ((pipelines S)[i := p]) = map pubsub_msg (pipelines S)"
    using step_pubsub_msg [OF st] i by (simp add: map_update list_update_same_conv)
  then have "flow S' = flow S" "pending S' = pending S"
    by (simp_all add: S' flow_def dequeued_def)
  with assms(1) show ?thesis by (simp add: sys_inv_def)
qed

lemma sys_step_inv: "sys_inv D S \<Longrightarrow> sys_step E a S = Some S' \<Longrightarrow> sys_inv D S'"
  by (cases a) (auto intro: callback_inv add_to_queue_inv get_from_queue_inv run_pipeline_inv)

lemma sys_exec_inv: "sys_inv D S \<Longrightarrow> sys_exec E as S = Some S' \<Longrightarrow> sys_inv D S'"
proof (induction as arbitrary: S)
  case Nil
  then show ?case by simp
next
  case (Cons a as)
  from Cons.prems(2) obtain S1 where 1: "sys_step E a S = Some S1" and 2: "sys_exec E as S1 = Some S'"
    by (auto split: option.splits)
  from Cons.IH [OF sys_step_inv [OF Cons.prems(1) 1] 2] show ?case .
qed

section \<open>Claims\<close>

text \<open>
  C5. For every valid payload (a JSON object whose \<^verbatim>\<open>instance_name\<close> is a string), the
  message built from it has \<^verbatim>\<open>hostname\<close> equal to that name followed by
  \<^verbatim>\<open>.example.net\<close>; the message a pipeline holds, in any state it reaches, is this one,
  computed from its own payload.
\<close>

theorem hostname_from_payload:
  assumes "json_loads E (data raw) = Some (JObject kvs)"
    and "map_of kvs ''instance_name'' = Some (JString name)"
  shows "parse_message E raw =
           Inr \<lparr>instance_name = JString name, message_id = delivery_id raw,
                hostname = name @ ''.example.net''\<rparr>
         \<and> (\<forall>sched s pm. exec E sched (init raw) = Some s \<longrightarrow> msg s = Some pm \<longrightarrow>
               hostname pm = name @ ''.example.net'')"
proof -
  have p: "parse_message E raw =
           Inr \<lparr>instance_name = JString name, message_id = delivery_id raw,
                hostname = name @ ''.example.net''\<rparr>"
    using assms
    by (simp add: parse_message_def subscript_def new_PubSubMessage_def attrs_post_init_def
        format_value_def)
  have "hostname pm = name @ ''.example.net''"
    if r: "exec E sched (init raw) = Some s" and m: "msg s = Some pm" for sched s pm
  proof -
    note i = reach_inv [OF r] and q = reach_pubsub_msg [OF r]
    show ?thesis
    proof (cases "handler s")
      case HM_Created
      with i m show ?thesis by (simp add: pipeline_inv_def fresh_def)
    next
      case (HM_Raised e)
      with i m show ?thesis by (simp add: pipeline_inv_def fresh_def)
    next
      case HM_Gathering
      with i have "dispatched E s" by (simp add: pipeline_inv_def)
      with m p q show ?thesis by (auto simp: dispatched_def)
    next
      case HM_Returned
      with i have "dispatched E s" by (simp add: pipeline_inv_def)
      with m p q show ?thesis by (auto simp: dispatched_def)
    qed
  qed
  with p show ?thesis by blast
qed

theorem hostname_from_payload_witness:
  "parse_message
     \<lparr>json_loads = (\<lambda>b. Some (JObject [(''instance_name'', JString ''ab12'')])),
      str_other = (\<lambda>v. ''?'')\<rparr>
     \<lparr>data = [], delivery_id = ''17''\<rparr> =
   Inr \<lparr>instance_name = JString ''ab12'', message_id = ''17'', hostname = ''ab12.example.net''\<rparr>"
  using hostname_from_payload
    [of "\<lparr>json_loads = (\<lambda>b. Some (JObject [(''instance_name'', JString ''ab12'')])),
          str_other = (\<lambda>v. ''?'')\<rparr>"
        "\<lparr>data = [], delivery_id = ''17''\<rparr>"
        "[(''instance_name'', JString ''ab12'')]" "''ab12''"]
  by simp



text \<open>
  C1. For a message whose payload parses, \<^verbatim>\<open>pubsub_msg.ack()\<close> is called at most once in
  any execution, it has been called exactly once when no task can run any more, and every
  execution takes at most nine turns. When \<^verbatim>\<open>cleanup\<close> is about to acknowledge, and when
  it has, both sub-tasks have finished (returned or raised) and the event is set; the
  event is set only when both have finished.
\<close>

theorem ack_once_after_subtasks:
  assumes "parse_message E raw = Inr pm" and "exec E sched (init raw) = Some s"
  shows "acks s \<le> 1
    \<and> (acks s = 1 \<longrightarrow> terminal (save_task s) \<and> terminal (restart_task s) \<and> event s = Some True)
    \<and> (cleanup_task s = Some CL_Sleeping \<longrightarrow>
          terminal (save_task s) \<and> terminal (restart_task s) \<and> event s = Some True)
    \<and> (event s = Some True \<longrightarrow> terminal (save_task s) \<and> terminal (restart_task s))
    \<and> (quiescent E s \<longrightarrow> acks s = 1)
    \<and> length sched \<le> 9"
proof -
  note i = reach_inv [OF assms(2)]
  have raw: "pubsub_msg s = raw" by (rule reach_pubsub_msg [OF assms(2)])
  have ret: "terminal (save_task s) \<and> terminal (restart_task s) \<and> event s = Some True"
    if "handler s = HM_Returned"
    using inv_returned [OF i that] by (auto simp: terminal_def)
  have 1: "acks s \<le> 1" by (rule inv_acks_le [OF i])
  have 2: "acks s = 1 \<longrightarrow> terminal (save_task s) \<and> terminal (restart_task s) \<and> event s = Some True"
    using ret inv_event_set [OF i] by simp
  have 3: "cleanup_task s = Some CL_Sleeping \<longrightarrow>
          terminal (save_task s) \<and> terminal (restart_task s) \<and> event s = Some True"
    using ret inv_event_set [OF i] by simp
  have 4: "event s = Some True \<longrightarrow> terminal (save_task s) \<and> terminal (restart_task s)"
    using ret inv_event_set [OF i] by simp
  have 5: "quiescent E s \<longrightarrow> acks s = 1"
  proof
    assume q: "quiescent E s"
    from inv_parsed [OF i] assms(1) raw have "\<forall>e. handler s \<noteq> HM_Raised e" by simp
    with quiescent_inv [OF i q] have h: "handler s = HM_Returned" and c: "cleanup_task s = Some CL_Finished"
      by auto
    from inv_returned [OF i h] c show "acks s = 1" by simp
  qed
  have 6: "length sched \<le> 9" by (rule reach_length [OF assms(2)])
  show ?thesis by (intro conjI) (rule 1, rule 2, rule 3, rule 4, rule 5, rule 6)
qed

theorem ack_once_after_subtasks_witness:
  "acks (the (exec demo_env demo_schedule (init demo_message))) = 1"
proof -
  have p: "parse_message demo_env demo_message = Inr (projr (parse_message demo_env demo_message))"
    by code_simp
  have e: "exec demo_env demo_schedule (init demo_message) =
             Some (the (exec demo_env demo_schedule (init demo_message)))"
    by code_simp
  have q: "quiescent demo_env (the (exec demo_env demo_schedule (init demo_message)))"
    by code_simp
  from ack_once_after_subtasks [OF p e] q show ?thesis by blast
qed

text \<open>
  C2. For a message whose payload parses: \<^verbatim>\<open>handle_message\<close> never ends with an
  exception; when \<^verbatim>\<open>restart_host\<close> has failed, \<^verbatim>\<open>save\<close> has finished or can still be run;
  the gathered results hold the outcome of both sub-tasks, and exactly the failures among
  them are logged by \<^verbatim>\<open>handle_results\<close>; when no task can run any more,
  \<^verbatim>\<open>handle_message\<close> has returned, the event is set and the message is acknowledged.
  Whatever the two outcomes are (both may be failures), \<^verbatim>\<open>handle_message\<close> resumes from the
  gather, records them and sets the event.
\<close>

theorem subtask_failure_is_contained:
  assumes "parse_message E raw = Inr pm" and "exec E sched (init raw) = Some s"
  shows "(\<forall>e. handler s \<noteq> HM_Raised e)
    \<and> (\<forall>e. restart_task s = Some (Finished (Failed e)) \<longrightarrow> terminal (save_task s) \<or> save s \<noteq> None)
    \<and> (\<forall>rs. results s = Some rs \<longrightarrow>
          handler s = HM_Returned \<and> event s = Some True
          \<and> rs = [the (outcome (save_task s)), the (outcome (restart_task s))]
          \<and> (\<forall>e. Caught e \<in> set (logged s) \<longleftrightarrow> Failed e \<in> set rs))
    \<and> (quiescent E s \<longrightarrow>
          handler s = HM_Returned \<and> event s = Some True \<and> acks s = 1
          \<and> save_task s = Some (Finished Ok) \<and> terminal (restart_task s))
    \<and> (\<forall>s0 r1 r2. handler s0 = HM_Gathering \<longrightarrow> save_task s0 = Some (Finished r1) \<longrightarrow>
          restart_task s0 = Some (Finished r2) \<longrightarrow>
          handle_message E s0 =
            Some (s0\<lparr>results := Some [r1, r2], logged := logged s0 @ handle_results [r1, r2],
                     event := Some True, handler := HM_Returned\<rparr>))"
proof -
  note i = reach_inv [OF assms(2)]
  have raw: "pubsub_msg s = raw" by (rule reach_pubsub_msg [OF assms(2)])
  have 1: "\<forall>e. handler s \<noteq> HM_Raised e"
    using inv_parsed [OF i] assms(1) raw by simp
  have 2: "\<forall>e. restart_task s = Some (Finished (Failed e)) \<longrightarrow> terminal (save_task s) \<or> save s \<noteq> None"
  proof (intro allI impI)
    fix e assume f: "restart_task s = Some (Finished (Failed e))"
    from inv_failed [OF i] f have d: "dispatched E s" by (auto simp: fresh_def)
    then obtain m where "msg s = Some m" by (auto simp: dispatched_def)
    with d show "terminal (save_task s) \<or> save s \<noteq> None"
      by (auto simp: dispatched_def terminal_def save_def)
  qed
  have 3: "\<forall>rs. results s = Some rs \<longrightarrow>
          handler s = HM_Returned \<and> event s = Some True
          \<and> rs = [the (outcome (save_task s)), the (outcome (restart_task s))]
          \<and> (\<forall>e. Caught e \<in> set (logged s) \<longleftrightarrow> Failed e \<in> set rs)"
  proof (intro allI impI)
    fix rs assume r: "results s = Some rs"
    with inv_event_set [OF i] have h: "handler s = HM_Returned" by simp
    from inv_returned [OF i h] obtain x where
      ev: "event s = Some True" and sv: "save_task s = Some (Finished Ok)"
      and rt: "restart_task s = Some (Finished x)" and rr: "results s = Some [Ok, x]"
      and lg: "\<forall>e. Caught e \<in> set (logged s) \<longleftrightarrow> x = Failed e"
      by blast
    from r rr have rs: "rs = [Ok, x]" by simp
    have "\<forall>e. Caught e \<in> set (logged s) \<longleftrightarrow> Failed e \<in> set rs"
      unfolding rs using lg by (simp add: eq_commute)
    with h ev sv rt rs
    show "handler s = HM_Returned \<and> event s = Some True
          \<and> rs = [the (outcome (save_task s)), the (outcome (restart_task s))]
          \<and> (\<forall>e. Caught e \<in> set (logged s) \<longleftrightarrow> Failed e \<in> set rs)"
      by simp
  qed
  have 4: "quiescent E s \<longrightarrow>
          handler s = HM_Returned \<and> event s = Some True \<and> acks s = 1
          \<and> save_task s = Some (Finished Ok) \<and> terminal (restart_task s)"
  proof
    assume q: "quiescent E s"
    with quiescent_inv [OF i q] 1 have h: "handler s = HM_Returned" and c: "cleanup_task s = Some CL_Finished"
      by auto
    from inv_returned [OF i h] c h
    show "handler s = HM_Returned \<and> event s = Some True \<and> acks s = 1
          \<and> save_task s = Some (Finished Ok) \<and> terminal (restart_task s)"
      by (auto simp: terminal_def)
  qed
  have 5: "\<forall>s0 r1 r2. handler s0 = HM_Gathering \<longrightarrow> save_task s0 = Some (Finished r1) \<longrightarrow>
          restart_task s0 = Some (Finished r2) \<longrightarrow>
          handle_message E s0 =
            Some (s0\<lparr>results := Some [r1, r2], logged := logged s0 @ handle_results [r1, r2],
                     event := Some True, handler := HM_Returned\<rparr>)"
    by (simp add: handle_message_def gather_finished)
  show ?thesis by (intro conjI) (rule 1, rule 2, rule 3, rule 4, rule 5)
qed

theorem subtask_failure_is_contained_witness:
  "handler (the (exec demo_env demo_schedule (init demo_message))) = HM_Returned
   \<and> restart_task (the (exec demo_env demo_schedule (init demo_message))) =
       Some (Finished (Failed (Exception ''Could not restart ab12.example.net'')))
   \<and> save_task (the (exec demo_env demo_schedule (init demo_message))) = Some (Finished Ok)"
proof -
  have p: "parse_message demo_env demo_message = Inr (projr (parse_message demo_env demo_message))"
    by code_simp
  have e: "exec demo_env demo_schedule (init demo_message) =
             Some (the (exec demo_env demo_schedule (init demo_message)))"
    by code_simp
  have q: "quiescent demo_env (the (exec demo_env demo_schedule (init demo_message)))"
    by code_simp
  have r: "restart_task (the (exec demo_env demo_schedule (init demo_message))) =
       Some (Finished (Failed (Exception ''Could not restart ab12.example.net'')))"
    by code_simp
  from subtask_failure_is_contained [OF p e] q r show ?thesis by blast
qed

text \<open>
  C4. For a message whose payload is a JSON object without the key \<^verbatim>\<open>instance_name\<close>,
  \<^verbatim>\<open>handle_message\<close> raises \<^verbatim>\<open>KeyError\<close> in its first turn and nothing else ever runs: no
  sub-task and no cleanup task is created, no event exists, and the message is never
  acknowledged.
\<close>

theorem malformed_payload_not_dispatched:
  assumes "json_loads E (data raw) = Some (JObject kvs)"
    and "map_of kvs ''instance_name'' = None"
    and "exec E sched (init raw) = Some s"
  shows "save_task s = None \<and> restart_task s = None \<and> cleanup_task s = None
    \<and> event s = None \<and> acks s = 0 \<and> msg s = None \<and> results s = None
    \<and> (sched = [] \<and> handler s = HM_Created
        \<or> sched = [RunHandler] \<and> handler s = HM_Raised (KeyError ''instance_name''))"
proof -
  have p: "parse_message E raw = Inl (KeyError ''instance_name'')"
    using assms(1,2) by (simp add: parse_message_def subscript_def)
  from exec_parse_failed [OF p assms(3)] show ?thesis
    by (auto simp: init_def)
qed

theorem malformed_payload_not_dispatched_witness:
  "handler (the (exec demo_env [RunHandler] (init demo_malformed))) = HM_Raised (KeyError ''instance_name'')
   \<and> acks (the (exec demo_env [RunHandler] (init demo_malformed))) = 0"
proof -
  have l: "json_loads demo_env (data demo_malformed) = Some (JObject [(''zone'', JString ''eu'')])"
    by (simp add: demo_env_def demo_malformed_def)
  have k: "map_of [(''zone'', JString ''eu'')] ''instance_name'' = None"
    by simp
  have e: "exec demo_env [RunHandler] (init demo_malformed) =
             Some (the (exec demo_env [RunHandler] (init demo_malformed)))"
    by code_simp
  from malformed_payload_not_dispatched [OF l k e] show ?thesis by simp
qed

text \<open>
  C6, as stated: a \<^verbatim>\<open>PubSubMessage\<close> cannot have a field reassigned. The class is not
  frozen, so an assignment to any of the three fields succeeds and changes the field.
\<close>

theorem message_immutable_counterexample:
  "hostname (setattr_hostname ''db.internal''
     (new_PubSubMessage (\<lambda>v. ''?'') ''17'' (JString ''ab12''))) = ''db.internal''
   \<and> hostname (new_PubSubMessage (\<lambda>v. ''?'') ''17'' (JString ''ab12'')) = ''ab12.example.net''
   \<and> instance_name (setattr_instance_name (JString ''zz99'')
        (new_PubSubMessage (\<lambda>v. ''?'') ''17'' (JString ''ab12''))) = JString ''zz99''
   \<and> message_id (setattr_message_id ''18''
        (new_PubSubMessage (\<lambda>v. ''?'') ''17'' (JString ''ab12''))) = ''18''"
  by (simp add: setattr_hostname_def setattr_instance_name_def setattr_message_id_def
      new_PubSubMessage_def attrs_post_init_def format_value_def)

text \<open>
  C6, amended: no task of the program assigns to a field of the message. Once a pipeline
  holds its \<^verbatim>\<open>PubSubMessage\<close>, every later state of every execution holds the same value,
  which is the one the constructor built from the delivery identifier and the name.
\<close>

theorem message_unchanged_by_program:
  assumes "exec E sched (init raw) = Some s" and "msg s = Some pm"
    and "exec E sched' s = Some s'"
  shows "msg s' = Some pm
    \<and> pm = new_PubSubMessage (str_other E) (delivery_id raw) (instance_name pm)"
proof -
  note i = reach_inv [OF assms(1)]
  have 1: "msg s' = Some pm" by (rule exec_msg_stable [OF i assms(2,3)])
  from inv_failed [OF i] assms(2) have "dispatched E s" by (auto simp: fresh_def)
  with assms(2) reach_pubsub_msg [OF assms(1)] have p: "parse_message E raw = Inr pm"
    by (auto simp: dispatched_def)
  have 2: "pm = new_PubSubMessage (str_other E) (delivery_id raw) (instance_name pm)"
    using p by (auto simp: parse_message_def new_PubSubMessage_def split: option.splits sum.splits)
  from 1 2 show ?thesis by simp
qed

theorem message_unchanged_by_program_witness:
  "msg (the (exec demo_env demo_schedule (init demo_message))) =
     Some \<lparr>instance_name = JString ''ab12'', message_id = ''17'', hostname = ''ab12.example.net''\<rparr>"
proof -
  have e1: "exec demo_env [RunHandler] (init demo_message) =
              Some (the (exec demo_env [RunHandler] (init demo_message)))"
    by code_simp
  have m: "msg (the (exec demo_env [RunHandler] (init demo_message))) =
     Some \<lparr>instance_name = JString ''ab12'', message_id = ''17'', hostname = ''ab12.example.net''\<rparr>"
    by code_simp
  have e2: "exec demo_env (tl demo_schedule) (the (exec demo_env [RunHandler] (init demo_message))) =
              Some (the (exec demo_env demo_schedule (init demo_message)))"
    by code_simp
  from message_unchanged_by_program [OF e1 m e2] show ?thesis by simp
qed

text \<open>
  C10. In every state a pipeline reaches, \<^verbatim>\<open>save\<close> has not failed: its entry in the
  gathered results is \<^verbatim>\<open>Ok\<close>, it can be run whenever it has not finished, and it has
  finished with \<^verbatim>\<open>Ok\<close> when no task can run any more. Only \<^verbatim>\<open>restart_host\<close> can fail:
  the failure is the exception naming the host, it is raised in the first turn of the task
  (the draw was 2), before the sleep and with nothing logged.
\<close>

theorem save_never_fails:
  assumes "exec E sched (init raw) = Some s"
  shows "(\<forall>e. save_task s \<noteq> Some (Finished (Failed e)))
    \<and> (\<forall>rs. results s = Some rs \<longrightarrow> (\<exists>r. rs = [Ok, r]))
    \<and> (save_task s = Some Created \<or> save_task s = Some Sleeping \<longrightarrow> save s \<noteq> None)
    \<and> (quiescent E s \<and> save_task s \<noteq> None \<longrightarrow> save_task s = Some (Finished Ok))
    \<and> (\<forall>e. restart_task s = Some (Finished (Failed e)) \<longrightarrow>
          (\<forall>h. Restarted h \<notin> set (logged s))
          \<and> (\<exists>m. msg s = Some m \<and> e = Exception (''Could not restart '' @ hostname m)))
    \<and> (\<forall>r s' e. restart_host r s = Some s' \<longrightarrow> restart_task s' = Some (Finished (Failed e)) \<longrightarrow>
          restart_task s = Some Created \<and> randrange_1_3 r = 2 \<and> logged s' = logged s)"
proof -
  note i = reach_inv [OF assms]
  note fd = inv_failed [OF i]
  have 1: "\<forall>e. save_task s \<noteq> Some (Finished (Failed e))"
    using fd by (auto simp: fresh_def dispatched_def)
  have 2: "\<forall>rs. results s = Some rs \<longrightarrow> (\<exists>r. rs = [Ok, r])"
  proof (intro allI impI)
    fix rs assume r: "results s = Some rs"
    with inv_event_set [OF i] have h: "handler s = HM_Returned" by simp
    from inv_returned [OF i h] r show "\<exists>r. rs = [Ok, r]" by auto
  qed
  have 3: "save_task s = Some Created \<or> save_task s = Some Sleeping \<longrightarrow> save s \<noteq> None"
  proof
    assume t: "save_task s = Some Created \<or> save_task s = Some Sleeping"
    with fd have "dispatched E s" by (auto simp: fresh_def)
    then obtain m where "msg s = Some m" by (auto simp: dispatched_def)
    with t show "save s \<noteq> None" by (auto simp: save_def)
  qed
  have 4: "quiescent E s \<and> save_task s \<noteq> None \<longrightarrow> save_task s = Some (Finished Ok)"
  proof
    assume q: "quiescent E s \<and> save_task s \<noteq> None"
    with fd have d: "dispatched E s" by (auto simp: fresh_def)
    from q have "save s = None" by (simp add: quiescent_def)
    with 3 d show "save_task s = Some (Finished Ok)" by (auto simp: dispatched_def)
  qed
  have 5: "\<forall>e. restart_task s = Some (Finished (Failed e)) \<longrightarrow>
          (\<forall>h. Restarted h \<notin> set (logged s))
          \<and> (\<exists>m. msg s = Some m \<and> e = Exception (''Could not restart '' @ hostname m))"
  proof (intro allI impI)
    fix e assume f: "restart_task s = Some (Finished (Failed e))"
    with fd have d: "dispatched E s" by (auto simp: fresh_def)
    from d f have a: "\<forall>h. Restarted h \<notin> set (logged s)" by (auto simp: dispatched_def)
    from d f have b: "\<exists>m. msg s = Some m \<and> e = Exception (''Could not restart '' @ hostname m)"
      by (auto simp: dispatched_def)
    from a b show "(\<forall>h. Restarted h \<notin> set (logged s))
          \<and> (\<exists>m. msg s = Some m \<and> e = Exception (''Could not restart '' @ hostname m))" ..
  qed
  have 6: "\<forall>r s' e. restart_host r s = Some s' \<longrightarrow> restart_task s' = Some (Finished (Failed e)) \<longrightarrow>
          restart_task s = Some Created \<and> randrange_1_3 r = 2 \<and> logged s' = logged s"
  proof (intro allI impI)
    fix r s' e assume st: "restart_host r s = Some s'" and f: "restart_task s' = Some (Finished (Failed e))"
    from st f show "restart_task s = Some Created \<and> randrange_1_3 r = 2 \<and> logged s' = logged s"
      unfolding restart_host_def
      by (auto split: option.splits sub_pc.splits if_splits)
  qed
  show ?thesis by (intro conjI) (rule 1, rule 2, rule 3, rule 4, rule 5, rule 6)
qed

theorem save_never_fails_witness:
  "save_task (the (exec demo_env demo_schedule (init demo_message))) = Some (Finished Ok)
   \<and> results (the (exec demo_env demo_schedule (init demo_message))) =
       Some [Ok, Failed (Exception ''Could not restart ab12.example.net'')]"
proof -
  have e: "exec demo_env demo_schedule (init demo_message) =
             Some (the (exec demo_env demo_schedule (init demo_message)))"
    by code_simp
  have q: "quiescent demo_env (the (exec demo_env demo_schedule (init demo_message)))"
    by code_simp
  have r: "results (the (exec demo_env demo_schedule (init demo_message))) =
       Some [Ok, Failed (Exception ''Could not restart ab12.example.net'')]"
    by code_simp
  have n: "save_task (the (exec demo_env demo_schedule (init demo_message))) \<noteq> None"
    by code_simp
  from save_never_fails [OF e] q n r show ?thesis by blast
qed

text \<open>
  C3, as stated: a failing publish call is logged and the loop goes on. With a transport
  whose eighth publish call raises, the loop is left by that exception in its second
  round: eight calls were made, seven messages were logged as published, nothing was
  logged for the failure, and the loop slept once.
\<close>

theorem publish_failure_counterexample:
  "snd (publish 4 demo_transport demo_rnd pub_init) = Raised (TransportError ''unavailable'')
   \<and> length (sent (fst (publish 4 demo_transport demo_rnd pub_init))) = 8
   \<and> length (debug_log (fst (publish 4 demo_transport demo_rnd pub_init))) = 7
   \<and> slept (fst (publish 4 demo_transport demo_rnd pub_init)) = 3"
proof -
  have c: "client_error demo_transport = None" by (simp add: demo_transport_def)
  have f: "publish_error demo_transport (length (sent pub_init) + 7) = Some (TransportError ''unavailable'')"
    by (simp add: demo_transport_def pub_init_def)
  have n: "\<forall>i<7. publish_error demo_transport (length (sent pub_init) + i) = None"
    by (simp add: demo_transport_def pub_init_def)
  have k: "(7::nat) < 5 * 4" by simp
  from publish_raises_aux [OF c f n k, of demo_rnd] obtain st' where
    "publish 4 demo_transport demo_rnd pub_init = (st', Raised (TransportError ''unavailable''))"
    "length (sent st') = length (sent pub_init) + 7 + 1"
    "length (debug_log st') = length (debug_log pub_init) + 7"
    "slept st' = slept pub_init + 3 * (7 div 5)" by blast
  then show ?thesis by (simp add: pub_init_def)
qed

text \<open>
  C3, amended: \<^verbatim>\<open>publish\<close> has no handler around the offloaded call. While no publish
  call raises, every round publishes five messages and sleeps three time units, and the
  loop is still running after any number of rounds. The first publish call that raises
  ends \<^verbatim>\<open>publish_sync\<close> at that call and the exception leaves the loop: no later call
  is made, and only the messages published before it were logged.
\<close>

theorem publish_failure_ends_loop:
  assumes "client_error T = None"
  shows "((\<forall>i<5 * fuel. publish_error T (length (sent st) + i) = None) \<longrightarrow>
           (\<exists>st'. publish fuel T rnd st = (st', StillLooping)
              \<and> length (sent st') = length (sent st) + 5 * fuel
              \<and> slept st' = slept st + 3 * fuel))
    \<and> (\<forall>k e. k < 5 * fuel \<longrightarrow> publish_error T (length (sent st) + k) = Some e \<longrightarrow>
           (\<forall>i<k. publish_error T (length (sent st) + i) = None) \<longrightarrow>
           (\<exists>st'. publish fuel T rnd st = (st', Raised e)
              \<and> length (sent st') = length (sent st) + k + 1
              \<and> length (debug_log st') = length (debug_log st) + k
              \<and> slept st' = slept st + 3 * (k div 5)))"
proof (rule conjI)
  show "(\<forall>i<5 * fuel. publish_error T (length (sent st) + i) = None) \<longrightarrow>
           (\<exists>st'. publish fuel T rnd st = (st', StillLooping)
              \<and> length (sent st') = length (sent st) + 5 * fuel
              \<and> slept st' = slept st + 3 * fuel)"
    using publish_continues_aux [OF assms] by blast
next
  show "\<forall>k e. k < 5 * fuel \<longrightarrow> publish_error T (length (sent st) + k) = Some e \<longrightarrow>
           (\<forall>i<k. publish_error T (length (sent st) + i) = None) \<longrightarrow>
           (\<exists>st'. publish fuel T rnd st = (st', Raised e)
              \<and> length (sent st') = length (sent st) + k + 1
              \<and> length (debug_log st') = length (debug_log st) + k
              \<and> slept st' = slept st + 3 * (k div 5))"
  proof (intro allI impI)
    fix k e
    assume "k < 5 * fuel" "publish_error T (length (sent st) + k) = Some e"
      "\<forall>i<k. publish_error T (length (sent st) + i) = None"
    from publish_raises_aux [OF assms this(2,3,1)]
    show "\<exists>st'. publish fuel T rnd st = (st', Raised e)
              \<and> length (sent st') = length (sent st) + k + 1
              \<and> length (debug_log st') = length (debug_log st) + k
              \<and> slept st' = slept st + 3 * (k div 5)" .
  qed
qed

theorem publish_failure_ends_loop_witness:
  "\<exists>st'. publish 4 demo_transport demo_rnd pub_init = (st', Raised (TransportError ''unavailable''))
     \<and> length (sent st') = 8 \<and> length (debug_log st') = 7 \<and> slept st' = 3"
proof -
  have c: "client_error demo_transport = None" by (simp add: demo_transport_def)
  have f: "publish_error demo_transport (length (sent pub_init) + 7) = Some (TransportError ''unavailable'')"
    by (simp add: demo_transport_def pub_init_def)
  have n: "\<forall>i<7. publish_error demo_transport (length (sent pub_init) + i) = None"
    by (simp add: demo_transport_def pub_init_def)
  have k: "(7::nat) < 5 * 4" by simp
  from publish_failure_ends_loop [OF c, of 4 pub_init demo_rnd] f n k
  have "\<exists>st'. publish 4 demo_transport demo_rnd pub_init = (st', Raised (TransportError ''unavailable''))
              \<and> length (sent st') = length (sent pub_init) + 7 + 1
              \<and> length (debug_log st') = length (debug_log pub_init) + 7
              \<and> slept st' = slept pub_init + 3 * (7 div 5)"
    by blast
  then show ?thesis by (simp add: pub_init_def)
qed

text \<open>
  C7. \<^verbatim>\<open>get_from_queue\<close> creates the task for a dequeued message and goes on without
  awaiting it. With A and B at the head of the queue and B's payload parsing: after A is
  dequeued, whatever turns A's pipeline takes (none at all, some, or up to a failure),
  B is dequeued and the first turn of B's own \<^verbatim>\<open>handle_message\<close> dispatches it: event,
  cleanup task and both sub-tasks are created. A's pipeline is left as it was.
\<close>

theorem ingest_not_blocked_by_earlier_message:
  assumes "queue S = A # B # rest" and "parse_message E B = Inr pm"
    and "exec E scheduleA (init A) = Some pA"
  shows "sys_exec E ([Ingest] @ map (Pipe (length (pipelines S))) scheduleA
                      @ [Ingest, Pipe (Suc (length (pipelines S))) RunHandler]) S =
           Some (S\<lparr>queue := rest,
                   pipelines := pipelines S @
                     [pA, (init B)\<lparr>msg := Some pm, logged := [Handling pm], event := Some False,
                                   cleanup_task := Some CL_Created, save_task := Some Created,
                                   restart_task := Some Created, handler := HM_Gathering\<rparr>]\<rparr>)"
proof -
  define n where "n = length (pipelines S)"
  define S1 where "S1 = S\<lparr>queue := B # rest, pipelines := pipelines S @ [init A]\<rparr>"
  define S2 where "S2 = S1\<lparr>pipelines := (pipelines S1)[n := pA]\<rparr>"
  define S3 where "S3 = S2\<lparr>queue := rest, pipelines := pipelines S2 @ [init B]\<rparr>"
  define pB where "pB = (init B)\<lparr>msg := Some pm, logged := [Handling pm], event := Some False,
                                   cleanup_task := Some CL_Created, save_task := Some Created,
                                   restart_task := Some Created, handler := HM_Gathering\<rparr>"
  have 1: "sys_exec E [Ingest] S = Some S1"
    using assms(1) by (simp add: get_from_queue_def S1_def)
  have n1: "n < length (pipelines S1)" by (simp add: S1_def n_def)
  have "exec E scheduleA (pipelines S1 ! n) = Some pA"
    using assms(3) by (simp add: S1_def n_def)
  from pipe_exec [OF n1 this] have 2: "sys_exec E (map (Pipe n) scheduleA) S1 = Some S2"
    by (simp add: S2_def)
  have p2: "pipelines S2 = pipelines S @ [pA]" by (simp add: S2_def S1_def n_def)
  have q2: "queue S2 = B # rest" by (simp add: S2_def S1_def)
  have 3: "sys_step E Ingest S2 = Some S3"
    using q2 by (simp add: get_from_queue_def S3_def)
  have p3: "pipelines S3 = pipelines S @ [pA, init B]" by (simp add: S3_def p2)
  have h: "handle_message E (init B) = Some pB"
    using assms(2) by (simp add: handle_message_def init_def pB_def)
  have 4: "sys_step E (Pipe (Suc n) RunHandler) S3 =
             Some (S3\<lparr>pipelines := (pipelines S3)[Suc n := pB]\<rparr>)"
    using h by (simp add: run_pipeline_def p3 n_def nth_append)
  have 5: "S3\<lparr>pipelines := (pipelines S3)[Suc n := pB]\<rparr> =
             S\<lparr>queue := rest, pipelines := pipelines S @ [pA, pB]\<rparr>"
    by (simp add: p3 n_def S3_def S2_def S1_def list_update_append)
  have a: "sys_exec E [Ingest, Pipe (Suc n) RunHandler] S2 =
          Some (S\<lparr>queue := rest, pipelines := pipelines S @ [pA, pB]\<rparr>)"
    using 3 4 5 by simp
  have b: "sys_exec E (map (Pipe n) scheduleA @ [Ingest, Pipe (Suc n) RunHandler]) S1 =
          Some (S\<lparr>queue := rest, pipelines := pipelines S @ [pA, pB]\<rparr>)"
    by (simp only: sys_exec_append 2 a option.case)
  have "sys_exec E ([Ingest] @ map (Pipe n) scheduleA @ [Ingest, Pipe (Suc n) RunHandler]) S =
          Some (S\<lparr>queue := rest, pipelines := pipelines S @ [pA, pB]\<rparr>)"
    by (simp only: sys_exec_append [of E "[Ingest]"] 1 b option.case)
  then show ?thesis by (simp add: n_def pB_def)
qed

theorem ingest_not_blocked_by_earlier_message_witness:
  "map handler (pipelines (the (sys_exec demo_env
       [Ingest, Pipe 0 RunHandler, Ingest, Pipe 1 RunHandler]
       \<lparr>pending = [], ready = [], queue = [demo_malformed, demo_message], pipelines = []\<rparr>))) =
     [HM_Raised (KeyError ''instance_name''), HM_Gathering]"
proof -
  have q: "queue \<lparr>pending = [], ready = [], queue = [demo_malformed, demo_message], pipelines = []\<rparr>
             = demo_malformed # demo_message # []" by simp
  have p: "parse_message demo_env demo_message = Inr (projr (parse_message demo_env demo_message))"
    by code_simp
  have e: "exec demo_env [RunHandler] (init demo_malformed) =
             Some ((init demo_malformed)\<lparr>handler := HM_Raised (KeyError ''instance_name'')\<rparr>)"
    by code_simp
  from ingest_not_blocked_by_earlier_message [OF q p e] show ?thesis by simp
qed

text \<open>
  C8. Each callback thread hands each of its deliveries to the loop once; the loop runs
  the \<^verbatim>\<open>add_to_queue\<close> coroutines in the order they were handed over, and
  \<^verbatim>\<open>get_from_queue\<close> dequeues in queue order. For every interleaving of the threads with
  the loop: the messages dequeued, queued, handed over and still to be delivered are
  together exactly the deliveries (as a multiset); what a thread has delivered so far is a
  subsequence of the flow; and once everything is delivered and dequeued, the dequeued
  messages are exactly the deliveries, as many as were delivered, with every thread's
  deliveries in their order. A hand-over (\<^verbatim>\<open>run_coroutine_threadsafe\<close>) is one atomic step.
\<close>

theorem mailbox_no_loss_no_duplication:
  assumes "sys_exec E sched (sys_init deliveries) = Some S"
  shows "mset (dequeued S @ queue S @ ready S @ concat (pending S)) = mset (concat deliveries)
    \<and> (\<forall>t<length deliveries. \<exists>c. deliveries ! t = c @ pending S ! t
           \<and> subseq c (dequeued S @ queue S @ ready S))
    \<and> (concat (pending S) = [] \<and> ready S = [] \<and> queue S = [] \<longrightarrow>
          mset (dequeued S) = mset (concat deliveries)
          \<and> length (dequeued S) = length (concat deliveries)
          \<and> (\<forall>t<length deliveries. subseq (deliveries ! t) (dequeued S)))"
proof -
  from sys_exec_inv [OF sys_inv_init assms] have i: "sys_inv deliveries S" .
  then have len: "length (pending S) = length deliveries"
    and ms: "mset (flow S) + mset (concat (pending S)) = mset (concat deliveries)"
    and ord: "\<forall>t<length deliveries. \<exists>c. deliveries ! t = c @ pending S ! t \<and> subseq c (flow S)"
    by (simp_all add: sys_inv_def)
  have 1: "mset (dequeued S @ queue S @ ready S @ concat (pending S)) = mset (concat deliveries)"
    using ms by (simp add: flow_def ac_simps)
  have 2: "\<forall>t<length deliveries. \<exists>c. deliveries ! t = c @ pending S ! t
           \<and> subseq c (dequeued S @ queue S @ ready S)"
    using ord by (simp add: flow_def)
  have 3: "concat (pending S) = [] \<and> ready S = [] \<and> queue S = [] \<longrightarrow>
          mset (dequeued S) = mset (concat deliveries)
          \<and> length (dequeued S) = length (concat deliveries)
          \<and> (\<forall>t<length deliveries. subseq (deliveries ! t) (dequeued S))"
  proof
    assume d: "concat (pending S) = [] \<and> ready S = [] \<and> queue S = []"
    then have fl: "flow S = dequeued S" by (simp add: flow_def)
    from ms d fl have a: "mset (dequeued S) = mset (concat deliveries)" by simp
    then have b: "length (dequeued S) = length (concat deliveries)" by (rule mset_eq_length)
    have c: "\<forall>t<length deliveries. subseq (deliveries ! t) (dequeued S)"
    proof (intro allI impI)
      fix t assume t: "t < length deliveries"
      with ord obtain c where c: "deliveries ! t = c @ pending S ! t" "subseq c (flow S)" by blast
      from t len have "pending S ! t \<in> set (pending S)" by simp
      with d have "pending S ! t = []" by auto
      with c fl show "subseq (deliveries ! t) (dequeued S)" by simp
    qed
    from a b c show "mset (dequeued S) = mset (concat deliveries)
          \<and> length (dequeued S) = length (concat deliveries)
          \<and> (\<forall>t<length deliveries. subseq (deliveries ! t) (dequeued S))" by blast
  qed
  from 1 2 3 show ?thesis by blast
qed

theorem mailbox_no_loss_no_duplication_witness:
  "dequeued (the (sys_exec demo_env
       [Deliver 0, Deliver 1, RunAdd, Ingest, Deliver 0, RunAdd, RunAdd, Ingest, Ingest]
       (sys_init [[demo_message, demo_malformed], [demo_message\<lparr>delivery_id := ''19''\<rparr>]]))) =
     [demo_message, demo_message\<lparr>delivery_id := ''19''\<rparr>, demo_malformed]"
proof -
  have e: "sys_exec demo_env
       [Deliver 0, Deliver 1, RunAdd, Ingest, Deliver 0, RunAdd, RunAdd, Ingest, Ingest]
       (sys_init [[demo_message, demo_malformed], [demo_message\<lparr>delivery_id := ''19''\<rparr>]]) =
     Some (the (sys_exec demo_env
       [Deliver 0, Deliver 1, RunAdd, Ingest, Deliver 0, RunAdd, RunAdd, Ingest, Ingest]
       (sys_init [[demo_message, demo_malformed], [demo_message\<lparr>delivery_id := ''19''\<rparr>]])))"
    by code_simp
  have d: "dequeued (the (sys_exec demo_env
       [Deliver 0, Deliver 1, RunAdd, Ingest, Deliver 0, RunAdd, RunAdd, Ingest, Ingest]
       (sys_init [[demo_message, demo_malformed], [demo_message\<lparr>delivery_id := ''19''\<rparr>]]))) =
     [demo_message, demo_message\<lparr>delivery_id := ''19''\<rparr>, demo_malformed]"
    by code_simp
  from mailbox_no_loss_no_duplication [OF e] d show ?thesis by simp
qed

end
